theory Spec2Isabelle
  imports Main
begin

section \<open>The query cache of the article "Building a poor man's React Query"\<close>

text \<open>
  The TypeScript class \<open>QueryClient\<close> keeps three maps (\<open>queries\<close>, \<open>queryFns\<close>,
  \<open>listeners\<close>) and offers \<open>subscribe\<close>, \<open>fetchQuery\<close> and \<open>invalidateQuery\<close>.
  The embedding passes the client explicitly. JavaScript runs each synchronous stretch of
  code to completion, so one operation of the model is one such stretch:
  \<^item> \<open>fetchQuery\<close> is the body of the async function up to its \<open>await queryFn()\<close>
    (all of it, when the call ends before the \<open>await\<close>);
  \<^item> \<open>complete\<close> is the rest of that body, run when the promise of the fetch function
    settles (the environment chooses when, and with which result);
  \<^item> the promise a call returns is a number, and \<open>promises\<close> records how it settled.
  Two fields of the model are not in the class: \<open>inflight\<close> holds the suspended
  continuations, and \<open>trace\<close> records every \<open>queries.set\<close>, every \<open>notify\<close>, every call
  of a listener and every call of a fetch function, in the order they happen.
\<close>

subsection \<open>Data\<close>

type_synonym key = string
type_synonym time = int
type_synonym promise = nat

text \<open>\<open>type QueryStatus = 'idle' | 'loading' | 'success' | 'error'\<close>\<close>

datatype QueryStatus = Idle | Loading | Success | Error

text \<open>
  A value of \<open>T | undefined\<close>. \<open>null\<close> is kept apart from \<open>undefined\<close> because
  \<open>existingQuery?.data ?? undefined\<close> turns the first into the second.
\<close>

datatype 'a jsval = Undefined | Null | Value 'a

text \<open>An \<open>Error\<close> object with its message.\<close>

datatype js_error = NewError (message: string)

text \<open>
  A thrown value: an instance of \<open>Error\<close>, or any other value \<open>v\<close>, of which the code
  only ever evaluates \<open>String(v)\<close>. That conversion yields a string (for a string, the
  string itself), or it throws: a \<open>TypeError\<close> for an object without a primitive
  conversion, or whatever the \<open>toString\<close> of the value throws. \<open>Unprintable y\<close> is a
  value whose conversion throws \<open>y\<close>.
\<close>

datatype thrown = ErrorObject js_error | NonError string | Unprintable thrown

text \<open>
  A fetch function \<open>() => Promise<T>\<close>; the number is its identity. Called, it either
  returns its promise (\<open>Asynchronous\<close>: every \<open>async\<close> function, and \<open>fetch\<close>), which the
  environment settles later, or it throws before it returns one (\<open>Throwing\<close>). A fetch
  function that calls back into the client while it is being called is not covered by
  this model.
\<close>

datatype queryFn = Asynchronous nat | Throwing nat thrown

record 'a QueryState =
  data :: "'a jsval"
  status :: QueryStatus
  error :: "js_error option"
  lastFetchedAt :: int
  staleTime :: int

text \<open>
  \<open>type Listener = () => void\<close>. A listener is a function object, compared by identity
  in the \<open>Set\<close>. The client itself creates one kind of listener, the closure of the
  deduplication branch, which captures \<open>key\<close> and the \<open>resolve\<close>/\<open>reject\<close> of its
  promise. A listener passed in from outside either returns normally (\<open>Observer\<close>: the
  callback of \<open>useSyncExternalStore\<close>) or throws (\<open>Thrower\<close>); the number is its
  identity. A listener from outside that calls back into the client while it is being
  notified is not covered by this model.
\<close>

datatype Callback = Observer nat | Thrower nat thrown

datatype Listener = Waiter key promise | External Callback

datatype 'a outcome = Resolved "'a jsval" | Rejected thrown

text \<open>How the promise returned by a fetch function settles.\<close>

datatype 'a fetch_result = Resolves "'a jsval" | Rejects thrown

text \<open>
  What the continuation after \<open>await queryFn()\<close> still refers to: the promise of the
  call, and the variables \<open>key\<close>, \<open>staleTime\<close> and \<open>existingQuery\<close>.
\<close>

record 'a PendingFetch =
  pf_promise :: promise
  pf_key :: key
  pf_staleTime :: int
  pf_existingQuery :: "'a QueryState option"

datatype 'a event =
    Stored key "'a QueryState"
  | Notified key
  | Called key Listener
  | Fetched key queryFn

record 'a QueryClient =
  queries :: "key \<rightharpoonup> 'a QueryState"
  queryFns :: "key \<rightharpoonup> queryFn"
  listeners :: "key \<rightharpoonup> Listener list"
  promises :: "promise \<rightharpoonup> 'a outcome"
  next_promise :: promise
  inflight :: "'a PendingFetch list"
  trace :: "'a event list"

text \<open>The constructor: three empty maps.\<close>

definition new_client :: "'a QueryClient" where
  "new_client =
     \<lparr>queries = Map.empty, queryFns = Map.empty, listeners = Map.empty,
      promises = Map.empty, next_promise = 0, inflight = [], trace = []\<rparr>"

definition getQueryState :: "key \<Rightarrow> 'a QueryClient \<Rightarrow> 'a QueryState option" where
  "getQueryState k c = queries c k"

subsection \<open>subscribe, notify, setQueryState\<close>

text \<open>
  A \<open>Set\<close> is a list without repetition in insertion order: \<open>add\<close> of a member
  changes nothing, \<open>delete\<close> removes the member.
  The closure returned by \<open>subscribe\<close> reads \<open>this.listeners.get(key)\<close> when it is
  called, so it is a function of the client it is called on.
\<close>

definition unsubscribe :: "key \<Rightarrow> Listener \<Rightarrow> 'a QueryClient \<Rightarrow> 'a QueryClient" where
  "unsubscribe k l c =
     (case listeners c k of
        None \<Rightarrow> c
      | Some ls \<Rightarrow>
          (if removeAll l ls = []
           then c\<lparr>listeners := (listeners c)(k := None)\<rparr>
           else c\<lparr>listeners := (listeners c)(k \<mapsto> removeAll l ls)\<rparr>))"

definition subscribe ::
  "key \<Rightarrow> Listener \<Rightarrow> 'a QueryClient \<Rightarrow> ('a QueryClient \<Rightarrow> 'a QueryClient) \<times> 'a QueryClient" where
  "subscribe k l c =
     (let ls = (case listeners c k of None \<Rightarrow> [] | Some xs \<Rightarrow> xs)
      in (unsubscribe k l,
          c\<lparr>listeners := (listeners c)(k \<mapsto> (if l \<in> set ls then ls else ls @ [l]))\<rparr>))"

text \<open>
  A promise settles once: \<open>resolve\<close> and \<open>reject\<close> on a settled promise do nothing.
\<close>

definition settle :: "promise \<Rightarrow> 'a outcome \<Rightarrow> 'a QueryClient \<Rightarrow> 'a QueryClient" where
  "settle p out c =
     (case promises c p of
        None \<Rightarrow> c\<lparr>promises := (promises c)(p \<mapsto> out)\<rparr>
      | Some _ \<Rightarrow> c)"

text \<open>
  The listener of the deduplication branch. \<open>reject(state.error)\<close> passes the stored
  error; were it \<open>null\<close>, the promise would reject with \<open>null\<close>.
\<close>

definition waiter :: "key \<Rightarrow> promise \<Rightarrow> 'a QueryClient \<Rightarrow> 'a QueryClient" where
  "waiter k p c =
     (case queries c k of
        None \<Rightarrow> c
      | Some state \<Rightarrow>
          (if status state \<noteq> Loading then
             (let c1 = unsubscribe k (Waiter k p) c in
              if status state = Success then settle p (Resolved (data state)) c1
              else if status state = Error then
                settle p (Rejected (case error state of
                                      Some e \<Rightarrow> ErrorObject e
                                    | None \<Rightarrow> NonError ''null'')) c1
              else c1)
           else c))"

text \<open>Calling a listener: the value it throws, if it throws, and the client after.\<close>

fun invoke :: "Listener \<Rightarrow> 'a QueryClient \<Rightarrow> thrown option \<times> 'a QueryClient" where
  "invoke (Waiter k p) c = (None, waiter k p c)"
| "invoke (External (Observer n)) c = (None, c)"
| "invoke (External (Thrower n x)) c = (Some x, c)"

text \<open>
  \<open>listeners.forEach((listener) => listener())\<close>: there is no \<open>try\<close> around the call,
  so the first listener that throws ends the loop and the exception leaves \<open>notify\<close>.
  The loop runs over the members of the set when \<open>notify\<close> starts; the only listener
  that changes the set while it runs is a \<open>Waiter\<close>, which removes itself.
\<close>

fun notify_loop :: "key \<Rightarrow> Listener list \<Rightarrow> 'a QueryClient \<Rightarrow> thrown option \<times> 'a QueryClient" where
  "notify_loop k [] c = (None, c)"
| "notify_loop k (l # ls) c =
     (case invoke l (c\<lparr>trace := trace c @ [Called k l]\<rparr>) of
        (Some x, c1) \<Rightarrow> (Some x, c1)
      | (None, c1) \<Rightarrow> notify_loop k ls c1)"

definition notify :: "key \<Rightarrow> 'a QueryClient \<Rightarrow> thrown option \<times> 'a QueryClient" where
  "notify k c =
     (let c0 = c\<lparr>trace := trace c @ [Notified k]\<rparr>
      in case listeners c0 k of
           None \<Rightarrow> (None, c0)
         | Some ls \<Rightarrow> notify_loop k ls c0)"

definition setQueryState ::
  "key \<Rightarrow> 'a QueryState \<Rightarrow> 'a QueryClient \<Rightarrow> thrown option \<times> 'a QueryClient" where
  "setQueryState k state c =
     notify k (c\<lparr>queries := (queries c)(k \<mapsto> state), trace := trace c @ [Stored k state]\<rparr>)"

subsection \<open>fetchQuery and invalidateQuery\<close>

text \<open>\<open>error instanceof Error ? error : new Error(String(error))\<close>\<close>

text \<open>The result is the \<open>Error\<close>, or the value that \<open>String(error)\<close> throws.\<close>

fun normalize :: "thrown \<Rightarrow> thrown + js_error" where
  "normalize (ErrorObject e) = Inr e"
| "normalize (NonError s) = Inr (NewError s)"
| "normalize (Unprintable y) = Inl y"

text \<open>\<open>x ?? undefined\<close>\<close>

fun nullish_undefined :: "'a jsval \<Rightarrow> 'a jsval" where
  "nullish_undefined Null = Undefined"
| "nullish_undefined v = v"

text \<open>
  The three object literals passed to \<open>setQueryState\<close>. \<open>existingQuery?.x\<close> is
  \<open>undefined\<close> without an entry, and \<open>n || 0\<close> is \<open>0\<close> for \<open>undefined\<close> and for \<open>0\<close>.
\<close>

definition loading_state :: "'a QueryState option \<Rightarrow> int \<Rightarrow> 'a QueryState" where
  "loading_state existingQuery st =
     \<lparr>data = (case existingQuery of None \<Rightarrow> Undefined | Some q \<Rightarrow> nullish_undefined (data q)),
      status = Loading,
      error = None,
      lastFetchedAt = (case existingQuery of
                         None \<Rightarrow> 0
                       | Some q \<Rightarrow> if lastFetchedAt q = 0 then 0 else lastFetchedAt q),
      staleTime = st\<rparr>"

definition success_state :: "'a jsval \<Rightarrow> time \<Rightarrow> int \<Rightarrow> 'a QueryState" where
  "success_state d now st =
     \<lparr>data = d, status = Success, error = None, lastFetchedAt = now, staleTime = st\<rparr>"

definition error_state :: "'a QueryState option \<Rightarrow> js_error \<Rightarrow> int \<Rightarrow> 'a QueryState" where
  "error_state existingQuery err st =
     \<lparr>data = (case existingQuery of None \<Rightarrow> Undefined | Some q \<Rightarrow> data q),
      status = Error,
      error = Some err,
      lastFetchedAt = (case existingQuery of
                         None \<Rightarrow> 0
                       | Some q \<Rightarrow> if lastFetchedAt q = 0 then 0 else lastFetchedAt q),
      staleTime = st\<rparr>"

text \<open>
  The \<open>catch\<close> block. When \<open>String(error)\<close> throws, the exception leaves the block
  before \<open>setQueryState\<close>: no state is written and the call rejects with it. An
  exception that leaves \<open>setQueryState\<close> replaces \<open>err\<close>.
\<close>

definition catch_block :: "'a PendingFetch \<Rightarrow> thrown \<Rightarrow> 'a QueryClient \<Rightarrow> 'a QueryClient" where
  "catch_block f x c =
     (case normalize x of
        Inl y \<Rightarrow> settle (pf_promise f) (Rejected y) c
      | Inr err \<Rightarrow>
          (case setQueryState (pf_key f) (error_state (pf_existingQuery f) err (pf_staleTime f)) c of
             (Some y, c1) \<Rightarrow> settle (pf_promise f) (Rejected y) c1
           | (None, c1) \<Rightarrow> settle (pf_promise f) (Rejected (ErrorObject err)) c1))"

text \<open>
  \<open>fetchQuery(key, queryFn, options)\<close> up to the \<open>await\<close>; \<open>opt\<close> is
  \<open>options.staleTime\<close>, \<open>None\<close> when it (or \<open>options\<close>) is left out, and \<open>now\<close> is what
  \<open>Date.now()\<close> returns. The result is the promise of the call and the client.
  An exception that leaves the first \<open>setQueryState\<close> is outside the \<open>try\<close>: the
  promise rejects with it and \<open>queryFn\<close> is not called. The call \<open>queryFn()\<close> is inside
  the \<open>try\<close>: when it throws, the \<open>catch\<close> block runs within the same call; when it
  returns its promise, the call is suspended.
\<close>

definition fetchQuery ::
  "time \<Rightarrow> key \<Rightarrow> queryFn \<Rightarrow> int option \<Rightarrow> 'a QueryClient \<Rightarrow> promise \<times> 'a QueryClient" where
  "fetchQuery now k fn opt c =
     (let st = (case opt of None \<Rightarrow> 0 | Some s \<Rightarrow> s);
          p = next_promise c;
          c1 = c\<lparr>queryFns := (queryFns c)(k \<mapsto> fn), next_promise := Suc p\<rparr>;
          existingQuery = queries c1 k
      in if (case existingQuery of
               None \<Rightarrow> False
             | Some q \<Rightarrow> status q = Success \<and> now - lastFetchedAt q < staleTime q)
         then (p, settle p (Resolved (data (the existingQuery))) c1)
         else if (case existingQuery of None \<Rightarrow> False | Some q \<Rightarrow> status q = Loading)
         then (p, snd (subscribe k (Waiter k p) c1))
         else
           (case setQueryState k (loading_state existingQuery st) c1 of
              (Some x, c2) \<Rightarrow> (p, settle p (Rejected x) c2)
            | (None, c2) \<Rightarrow>
                (let c3 = c2\<lparr>trace := trace c2 @ [Fetched k fn]\<rparr>;
                     f = \<lparr>pf_promise = p, pf_key = k, pf_staleTime = st,
                          pf_existingQuery = existingQuery\<rparr>
                 in case fn of
                      Asynchronous n \<Rightarrow> (p, c3\<lparr>inflight := inflight c3 @ [f]\<rparr>)
                    | Throwing n x \<Rightarrow> (p, catch_block f x c3))))"

text \<open>
  The body after the \<open>await\<close>. The \<open>setQueryState\<close> of the success branch is inside the
  \<open>try\<close>, so an exception that leaves it is caught by the same \<open>catch\<close>.
\<close>

definition resume ::
  "time \<Rightarrow> 'a PendingFetch \<Rightarrow> 'a fetch_result \<Rightarrow> 'a QueryClient \<Rightarrow> 'a QueryClient" where
  "resume now f r c =
     (case r of
        Resolves d \<Rightarrow>
          (case setQueryState (pf_key f) (success_state d now (pf_staleTime f)) c of
             (Some x, c1) \<Rightarrow> catch_block f x c1
           | (None, c1) \<Rightarrow> settle (pf_promise f) (Resolved d) c1)
      | Rejects x \<Rightarrow> catch_block f x c)"

text \<open>
  The fetch started by the call with promise \<open>p\<close> settles with \<open>r\<close> at time \<open>now\<close>.
  Nothing happens when no such fetch is pending.
\<close>

definition complete ::
  "time \<Rightarrow> promise \<Rightarrow> 'a fetch_result \<Rightarrow> 'a QueryClient \<Rightarrow> 'a QueryClient" where
  "complete now p r c =
     (case find (\<lambda>f. pf_promise f = p) (inflight c) of
        None \<Rightarrow> c
      | Some f \<Rightarrow> resume now f r (c\<lparr>inflight := filter (\<lambda>g. pf_promise g \<noteq> p) (inflight c)\<rparr>))"

text \<open>
  \<open>invalidateQuery(key)\<close>. The promise of the inner \<open>fetchQuery\<close> is dropped; an async
  function never throws into its caller.
\<close>

definition invalidateQuery :: "time \<Rightarrow> key \<Rightarrow> 'a QueryClient \<Rightarrow> 'a QueryClient" where
  "invalidateQuery now k c =
     (case (queries c k, queryFns c k) of
        (Some queryState, Some fn) \<Rightarrow>
          snd (fetchQuery now k fn (Some (staleTime queryState))
                 (c\<lparr>queries := (queries c)(k := None)\<rparr>))
      | _ \<Rightarrow> c)"

subsection \<open>Histories\<close>

text \<open>
  What the users of a client and the environment can do, one synchronous stretch each.
  Callers subscribe listeners of their own only.
\<close>

datatype 'a op =
    FetchQuery time key queryFn "int option"
  | InvalidateQuery time key
  | Subscribe key Callback
  | Unsubscribe key Callback
  | Complete time promise "'a fetch_result"

fun step :: "'a op \<Rightarrow> 'a QueryClient \<Rightarrow> 'a QueryClient" where
  "step (FetchQuery now k fn opt) c = snd (fetchQuery now k fn opt c)"
| "step (InvalidateQuery now k) c = invalidateQuery now k c"
| "step (Subscribe k cb) c = snd (subscribe k (External cb) c)"
| "step (Unsubscribe k cb) c = fst (subscribe k (External cb) c) c"
| "step (Complete now p r) c = complete now p r c"

fun run :: "'a op list \<Rightarrow> 'a QueryClient \<Rightarrow> 'a QueryClient" where
  "run [] c = c"
| "run (x # xs) c = run xs (step x c)"

subsection \<open>Notions used in the statements\<close>

text \<open>The listeners registered for a key, in registration order.\<close>

definition listeners_of :: "key \<Rightarrow> 'a QueryClient \<Rightarrow> Listener list" where
  "listeners_of k c = (case listeners c k of None \<Rightarrow> [] | Some ls \<Rightarrow> ls)"

fun is_thrower :: "Listener \<Rightarrow> bool" where
  "is_thrower (External (Thrower n x)) = True"
| "is_thrower l = False"

text \<open>The listeners of a list that get called: all up to and including the first that throws.\<close>

fun upto_first_throw :: "Listener list \<Rightarrow> Listener list" where
  "upto_first_throw [] = []"
| "upto_first_throw (l # ls) = (if is_thrower l then [l] else l # upto_first_throw ls)"

fun first_thrown :: "Listener list \<Rightarrow> thrown option" where
  "first_thrown [] = None"
| "first_thrown (External (Thrower n x) # ls) = Some x"
| "first_thrown (l # ls) = first_thrown ls"

text \<open>
  The client after the first statements of \<open>fetchQuery\<close>: the fetch function is
  remembered and the promise of the call exists.
\<close>

definition remember :: "key \<Rightarrow> queryFn \<Rightarrow> 'a QueryClient \<Rightarrow> 'a QueryClient" where
  "remember k fn c = c\<lparr>queryFns := (queryFns c)(k \<mapsto> fn), next_promise := Suc (next_promise c)\<rparr>"

text \<open>
  Promises are numbered as they are created: a settled promise, the promise of a
  registered \<open>Waiter\<close> and the promise of a suspended call are all below \<open>next_promise\<close>;
  a \<open>Waiter\<close> is registered under its own key; the promise of a suspended call is pending
  and is not the promise of a \<open>Waiter\<close>.
\<close>

definition ids_below :: "'a QueryClient \<Rightarrow> bool" where
  "ids_below c \<longleftrightarrow>
     (\<forall>p. promises c p \<noteq> None \<longrightarrow> p < next_promise c) \<and>
     (\<forall>k k' p. Waiter k' p \<in> set (listeners_of k c) \<longrightarrow> k' = k \<and> p < next_promise c) \<and>
     (\<forall>f \<in> set (inflight c). pf_promise f < next_promise c \<and> promises c (pf_promise f) = None \<and>
        (\<forall>k k'. Waiter k' (pf_promise f) \<notin> set (listeners_of k c)))"

text \<open>The states passed to \<open>queries.set\<close> in a trace, in order, and those written between two clients.\<close>

fun stored_of :: "'a event \<Rightarrow> (key \<times> 'a QueryState) list" where
  "stored_of (Stored k s) = [(k, s)]"
| "stored_of e = []"

definition stored :: "'a event list \<Rightarrow> (key \<times> 'a QueryState) list" where
  "stored tr = concat (map stored_of tr)"

definition written_since :: "'a QueryClient \<Rightarrow> 'a QueryClient \<Rightarrow> (key \<times> 'a QueryState) list" where
  "written_since c c' = drop (length (stored (trace c))) (stored (trace c'))"

text \<open>What every stored state satisfies.\<close>

definition state_ok :: "'a QueryState \<Rightarrow> bool" where
  "state_ok q \<longleftrightarrow>
     (status q = Success \<longrightarrow> error q = None) \<and>
     (status q = Error \<longrightarrow> error q \<noteq> None) \<and>
     (status q = Loading \<longrightarrow> error q = None) \<and>
     status q \<noteq> Idle"

definition states_ok :: "'a QueryClient \<Rightarrow> bool" where
  "states_ok c \<longleftrightarrow> (\<forall>k q. queries c k = Some q \<longrightarrow> state_ok q)"

text \<open>What the listener of the deduplication branch settles its promise with.\<close>

definition waiter_outcome :: "'a QueryState \<Rightarrow> 'a outcome" where
  "waiter_outcome s =
     (if status s = Success then Resolved (data s)
      else Rejected (case error s of Some e \<Rightarrow> ErrorObject e | None \<Rightarrow> NonError ''null''))"

text \<open>A thrown value that the \<open>catch\<close> block can turn into an \<open>Error\<close>.\<close>

fun printable :: "thrown \<Rightarrow> bool" where
  "printable (Unprintable y) = False"
| "printable x = True"

text \<open>
  A settlement of a fetch after which the continuation writes a state: any value, or a
  failure that the \<open>catch\<close> block can normalize.
\<close>

fun lands :: "'a fetch_result \<Rightarrow> bool" where
  "lands (Resolves d) = True"
| "lands (Rejects x) = printable x"

text \<open>
  What the caller whose call made the fetch receives when the fetch settles with \<open>r\<close>
  and no listener throws.
\<close>

fun outcome_of :: "'a fetch_result \<Rightarrow> 'a outcome" where
  "outcome_of (Resolves d) = Resolved d"
| "outcome_of (Rejects x) =
     (case normalize x of Inr err \<Rightarrow> Rejected (ErrorObject err) | Inl y \<Rightarrow> Rejected y)"

text \<open>
  The state the continuation of a suspended call writes when the fetch settles with \<open>r\<close>
  and no listener throws; none when the failure cannot be normalized.
\<close>

definition settled_state :: "time \<Rightarrow> 'a PendingFetch \<Rightarrow> 'a fetch_result \<Rightarrow> 'a QueryState option" where
  "settled_state now f r =
     (case r of
        Resolves d \<Rightarrow> Some (success_state d now (pf_staleTime f))
      | Rejects x \<Rightarrow>
          (case normalize x of
             Inr err \<Rightarrow> Some (error_state (pf_existingQuery f) err (pf_staleTime f))
           | Inl y \<Rightarrow> None))"

text \<open>
  Every listener registered for the key returns when it is called: none throws. A
  listener of this model that returns is the \<open>Waiter\<close> of a call, or an \<open>Observer\<close>,
  which does not call back into the client; so \<open>quiet\<close> says that every listener of
  the key returns without throwing and without calling back into the client.
\<close>

definition quiet :: "key \<Rightarrow> 'a QueryClient \<Rightarrow> bool" where
  "quiet k c \<longleftrightarrow> (\<forall>l \<in> set (listeners_of k c). \<not> is_thrower l)"

text \<open>The fetch functions called for a key in a trace, in order.\<close>

fun fetched_of :: "key \<Rightarrow> 'a event \<Rightarrow> queryFn list" where
  "fetched_of k (Fetched k' fn) = (if k' = k then [fn] else [])"
| "fetched_of k e = []"

definition fetches :: "key \<Rightarrow> 'a event list \<Rightarrow> queryFn list" where
  "fetches k tr = concat (map (fetched_of k) tr)"

text \<open>
  The call takes the fetch path: the key has no entry, or an entry that is neither
  \<open>loading\<close> nor a fresh \<open>success\<close>.
\<close>

definition starts :: "time \<Rightarrow> key \<Rightarrow> 'a QueryClient \<Rightarrow> bool" where
  "starts now k c \<longleftrightarrow>
     (case queries c k of
        None \<Rightarrow> True
      | Some q \<Rightarrow> status q \<noteq> Loading \<and> \<not> (status q = Success \<and> now - lastFetchedAt q < staleTime q))"

text \<open>What the continuation of a call of \<open>fetchQuery\<close> on \<open>c\<close> refers to.\<close>

definition call_record :: "key \<Rightarrow> int option \<Rightarrow> 'a QueryClient \<Rightarrow> 'a PendingFetch" where
  "call_record k opt c =
     \<lparr>pf_promise = next_promise c, pf_key = k,
      pf_staleTime = (case opt of None \<Rightarrow> 0 | Some s \<Rightarrow> s),
      pf_existingQuery = queries c k\<rparr>"

text \<open>The map of states after a list of writes.\<close>

fun apply_writes ::
  "(key \<times> 'a QueryState) list \<Rightarrow> (key \<rightharpoonup> 'a QueryState) \<Rightarrow> (key \<rightharpoonup> 'a QueryState)" where
  "apply_writes [] m = m"
| "apply_writes ((k, s) # ws) m = apply_writes ws (m(k \<mapsto> s))"

text \<open>
  \<open>c'\<close> comes after \<open>c\<close> without a deletion: its trace has the writes of \<open>c\<close> and more,
  and its states are those of \<open>c\<close> with the new writes applied.
\<close>

definition follows :: "'a QueryClient \<Rightarrow> 'a QueryClient \<Rightarrow> bool" where
  "follows c c' \<longleftrightarrow>
     stored (trace c') = stored (trace c) @ written_since c c' \<and>
     queries c' = apply_writes (written_since c c') (queries c)"

text \<open>What the \<open>catch\<close> block writes for the call \<open>f\<close> and the caught value \<open>x\<close>.\<close>

definition catch_writes :: "'a PendingFetch \<Rightarrow> thrown \<Rightarrow> (key \<times> 'a QueryState) list" where
  "catch_writes f x =
     (case normalize x of
        Inr err \<Rightarrow> [(pf_key f, error_state (pf_existingQuery f) err (pf_staleTime f))]
      | Inl y \<Rightarrow> [])"




text \<open>
  From \<open>c\<close> to \<open>c'\<close> only the key \<open>k'\<close> is touched, and only the promise \<open>pid\<close> and those
  of the \<open>Waiter\<close>s registered for \<open>k'\<close> settle.
\<close>

definition confined :: "key \<Rightarrow> promise \<Rightarrow> 'a QueryClient \<Rightarrow> 'a QueryClient \<Rightarrow> bool" where
  "confined k' pid c c' \<longleftrightarrow>
     (\<forall>k. k \<noteq> k' \<longrightarrow>
        queries c' k = queries c k \<and> listeners_of k c' = listeners_of k c \<and>
        fetches k (trace c') = fetches k (trace c)) \<and>
     (\<forall>p. p \<noteq> pid \<and> (\<forall>k''. Waiter k'' p \<notin> set (listeners_of k' c)) \<longrightarrow>
        promises c' p = promises c p) \<and>
     set (listeners_of k' c') \<subseteq> insert (Waiter k' pid) (set (listeners_of k' c))"

subsection \<open>Clients of the examples\<close>

definition c6_client :: "nat QueryClient" where
  "c6_client =
     run [Subscribe ''a'' (Thrower 0 (NonError ''oops'')), Subscribe ''a'' (Observer 1)] new_client"

definition c8_client :: "nat QueryClient" where
  "c8_client = run [FetchQuery 0 ''a'' (Asynchronous 0) (Some 5), Complete 10 0 (Resolves (Value 7)),
                    FetchQuery 11 ''a'' (Asynchronous 1) (Some 9)] new_client"

definition c9_client :: "nat QueryClient" where
  "c9_client = run [Subscribe ''a'' (Observer 0), Subscribe ''a'' (Observer 1),
                    Subscribe ''b'' (Observer 0)] new_client"

definition c7_client :: "nat QueryClient" where
  "c7_client = run [FetchQuery 0 ''a'' (Asynchronous 0) None, Complete 1 0 (Resolves Undefined)] new_client"

definition c3_client :: "nat QueryClient" where
  "c3_client = run [FetchQuery 0 ''a'' (Asynchronous 0) None] new_client"

definition c2_client :: "nat QueryClient" where
  "c2_client = run [FetchQuery 0 ''a'' (Asynchronous 0) None, Complete 100 0 (Resolves (Value 7))] new_client"

definition c10_client :: "nat QueryClient" where
  "c10_client = run [FetchQuery 0 ''a'' (Asynchronous 0) (Some 50), Complete 100 0 (Resolves (Value 7))] new_client"




definition c5_client :: "nat QueryClient" where
  "c5_client = run [FetchQuery 0 ''a'' (Asynchronous 0) None, Subscribe ''a'' (Thrower 0 (NonError ''oops'')),
                    Complete 1 0 (Resolves (Value 7))] new_client"





section \<open>Basic facts\<close>

lemma unsubscribe_fields [simp]:
  "queries (unsubscribe k l c) = queries c"
  "queryFns (unsubscribe k l c) = queryFns c"
  "promises (unsubscribe k l c) = promises c"
  "next_promise (unsubscribe k l c) = next_promise c"
  "inflight (unsubscribe k l c) = inflight c"
  "trace (unsubscribe k l c) = trace c"
  by (simp_all add: unsubscribe_def split: option.split)

lemma listeners_of_unsubscribe [simp]:
  "listeners_of k' (unsubscribe k l c) =
     (if k' = k then removeAll l (listeners_of k c) else listeners_of k' c)"
  by (simp add: unsubscribe_def listeners_of_def split: option.split)

lemma settle_fields [simp]:
  "queries (settle p out c) = queries c"
  "queryFns (settle p out c) = queryFns c"
  "listeners (settle p out c) = listeners c"
  "next_promise (settle p out c) = next_promise c"
  "inflight (settle p out c) = inflight c"
  "trace (settle p out c) = trace c"
  by (simp_all add: settle_def split: option.split)

lemma listeners_of_settle [simp]: "listeners_of k (settle p out c) = listeners_of k c"
  by (simp add: listeners_of_def)

lemma promises_settle:
  "promises (settle p out c) p' =
     (if p' = p \<and> promises c p = None then Some out else promises c p')"
  by (simp add: settle_def split: option.split)

lemma waiter_fields [simp]:
  "queries (waiter k p c) = queries c"
  "queryFns (waiter k p c) = queryFns c"
  "next_promise (waiter k p c) = next_promise c"
  "inflight (waiter k p c) = inflight c"
  "trace (waiter k p c) = trace c"
  by (simp_all add: waiter_def Let_def split: option.split)

lemma listeners_of_upd [simp]:
  "listeners_of k (c\<lparr>trace := t\<rparr>) = listeners_of k c"
  "listeners_of k (c\<lparr>queries := q\<rparr>) = listeners_of k c"
  "listeners_of k (c\<lparr>queryFns := qf\<rparr>) = listeners_of k c"
  "listeners_of k (c\<lparr>next_promise := n\<rparr>) = listeners_of k c"
  "listeners_of k (c\<lparr>inflight := fs\<rparr>) = listeners_of k c"
  "listeners_of k (c\<lparr>promises := ps\<rparr>) = listeners_of k c"
  by (simp_all add: listeners_of_def)

lemma waiter_promises_Some:
  "promises c p' = Some out \<Longrightarrow> promises (waiter k p c) p' = Some out"
  by (auto simp: waiter_def Let_def promises_settle split: option.split)

lemma waiter_promises_other:
  "p' \<noteq> p \<Longrightarrow> promises (waiter k p c) p' = promises c p'"
  by (simp add: waiter_def Let_def promises_settle split: option.split)

lemma waiter_listeners_subset:
  "set (listeners_of k' (waiter k p c)) \<subseteq> set (listeners_of k' c)"
  by (auto simp: waiter_def Let_def split: option.splits if_splits)

lemma invoke_rel:
  assumes "invoke l c = (x, c')"
  shows "queries c' = queries c \<and> queryFns c' = queryFns c \<and>
         next_promise c' = next_promise c \<and> inflight c' = inflight c \<and> trace c' = trace c"
  using assms by (induction l c rule: invoke.induct) auto

lemma invoke_promises_Some:
  assumes "invoke l c = (x, c')" "promises c p = Some out"
  shows "promises c' p = Some out"
  using assms by (induction l c rule: invoke.induct) (auto simp: waiter_promises_Some)

lemma invoke_promises_other:
  assumes "invoke l c = (x, c')" "\<forall>k'. l \<noteq> Waiter k' p"
  shows "promises c' p = promises c p"
  using assms by (induction l c rule: invoke.induct) (auto simp: waiter_promises_other)

lemma invoke_listeners_subset:
  assumes "invoke l c = (x, c')"
  shows "set (listeners_of k' c') \<subseteq> set (listeners_of k' c)"
proof (cases l)
  case (Waiter k p)
  with assms have "c' = waiter k p c" by simp
  then show ?thesis using waiter_listeners_subset [of k' k p c] by simp
next
  case (External cb)
  with assms have "c' = c" by (cases cb) simp_all
  then show ?thesis by simp
qed

lemma invoke_thrown:
  "fst (invoke l c) = (case l of External (Thrower n x) \<Rightarrow> Some x | _ \<Rightarrow> None)"
  by (induction l c rule: invoke.induct) auto

lemma notify_loop_rel:
  assumes "notify_loop k ls c = (x, c')"
  shows "queries c' = queries c \<and> queryFns c' = queryFns c \<and>
         next_promise c' = next_promise c \<and> inflight c' = inflight c"
  using assms
proof (induction ls arbitrary: c)
  case Nil
  then show ?case by simp
next
  case (Cons l ls)
  obtain y c1 where inv: "invoke l (c\<lparr>trace := trace c @ [Called k l]\<rparr>) = (y, c1)"
    by (cases "invoke l (c\<lparr>trace := trace c @ [Called k l]\<rparr>)") auto
  from invoke_rel [OF inv] have same: "queries c1 = queries c" "queryFns c1 = queryFns c"
    "next_promise c1 = next_promise c" "inflight c1 = inflight c" by simp_all
  show ?case
  proof (cases y)
    case None
    with Cons.prems inv have "notify_loop k ls c1 = (x, c')" by simp
    from Cons.IH [OF this] same show ?thesis by simp
  next
    case (Some z)
    with Cons.prems inv have "c' = c1" by simp
    with same show ?thesis by simp
  qed
qed

lemma notify_loop_promises_Some:
  assumes "notify_loop k ls c = (x, c')" "promises c p = Some out"
  shows "promises c' p = Some out"
  using assms
proof (induction ls arbitrary: c)
  case Nil
  then show ?case by simp
next
  case (Cons l ls)
  obtain y c1 where inv: "invoke l (c\<lparr>trace := trace c @ [Called k l]\<rparr>) = (y, c1)"
    by (cases "invoke l (c\<lparr>trace := trace c @ [Called k l]\<rparr>)") auto
  from invoke_promises_Some [OF inv, of p out] Cons.prems(2)
  have p1: "promises c1 p = Some out" by simp
  show ?case
  proof (cases y)
    case None
    with Cons.prems inv have "notify_loop k ls c1 = (x, c')" by simp
    from Cons.IH [OF this p1] show ?thesis .
  next
    case (Some z)
    with Cons.prems inv have "c' = c1" by simp
    with p1 show ?thesis by simp
  qed
qed

lemma notify_loop_promises_other:
  assumes "notify_loop k ls c = (x, c')" "\<forall>k'. Waiter k' p \<notin> set ls"
  shows "promises c' p = promises c p"
  using assms
proof (induction ls arbitrary: c)
  case Nil
  then show ?case by simp
next
  case (Cons l ls)
  obtain y c1 where inv: "invoke l (c\<lparr>trace := trace c @ [Called k l]\<rparr>) = (y, c1)"
    by (cases "invoke l (c\<lparr>trace := trace c @ [Called k l]\<rparr>)") auto
  from Cons.prems(2) have "\<forall>k'. l \<noteq> Waiter k' p" by auto
  from invoke_promises_other [OF inv this]
  have p1: "promises c1 p = promises c p" by simp
  from Cons.prems(2) have rest: "\<forall>k'. Waiter k' p \<notin> set ls" by auto
  show ?case
  proof (cases y)
    case None
    with Cons.prems inv have "notify_loop k ls c1 = (x, c')" by simp
    from Cons.IH [OF this rest] p1 show ?thesis by simp
  next
    case (Some z)
    with Cons.prems inv have "c' = c1" by simp
    with p1 show ?thesis by simp
  qed
qed

lemma notify_loop_listeners_subset:
  assumes "notify_loop k ls c = (x, c')"
  shows "set (listeners_of k' c') \<subseteq> set (listeners_of k' c)"
  using assms
proof (induction ls arbitrary: c)
  case Nil
  then show ?case by simp
next
  case (Cons l ls)
  obtain y c1 where inv: "invoke l (c\<lparr>trace := trace c @ [Called k l]\<rparr>) = (y, c1)"
    by (cases "invoke l (c\<lparr>trace := trace c @ [Called k l]\<rparr>)") auto
  from invoke_listeners_subset [OF inv, of k']
  have l1: "set (listeners_of k' c1) \<subseteq> set (listeners_of k' c)" by simp
  show ?case
  proof (cases y)
    case None
    with Cons.prems inv have "notify_loop k ls c1 = (x, c')" by simp
    from Cons.IH [OF this] l1 show ?thesis by blast
  next
    case (Some z)
    with Cons.prems inv have "c' = c1" by simp
    with l1 show ?thesis by simp
  qed
qed

lemma ids_below_upd [simp]:
  "ids_below (c\<lparr>trace := t\<rparr>) = ids_below c"
  "ids_below (c\<lparr>queries := q\<rparr>) = ids_below c"
  "ids_below (c\<lparr>queryFns := qf\<rparr>) = ids_below c"
  by (simp_all add: ids_below_def)

lemma notify_loop_ids_below:
  assumes loop: "notify_loop k ls c = (x, c')"
    and inv: "ids_below c"
    and ls: "\<forall>k' p. Waiter k' p \<in> set ls \<longrightarrow>
               p < next_promise c \<and> p \<notin> pf_promise ` set (inflight c)"
  shows "ids_below c'"
proof -
  from notify_loop_rel [OF loop]
  have same: "next_promise c' = next_promise c" "inflight c' = inflight c" by simp_all
  have a: "p < next_promise c'" if "promises c' p \<noteq> None" for p
  proof (cases "\<exists>k'. Waiter k' p \<in> set ls")
    case True
    with ls same show ?thesis by auto
  next
    case False
    then have "promises c' p = promises c p"
      using notify_loop_promises_other [OF loop, of p] by simp
    with that inv same show ?thesis by (simp add: ids_below_def)
  qed
  have b: "k' = k2 \<and> p < next_promise c'" if "Waiter k' p \<in> set (listeners_of k2 c')" for k' k2 p
  proof -
    from that notify_loop_listeners_subset [OF loop, of k2]
    have "Waiter k' p \<in> set (listeners_of k2 c)" by blast
    with inv same show ?thesis by (simp add: ids_below_def)
  qed
  have c: "pf_promise f < next_promise c' \<and> promises c' (pf_promise f) = None \<and>
           (\<forall>k2 k'. Waiter k' (pf_promise f) \<notin> set (listeners_of k2 c'))"
    if "f \<in> set (inflight c')" for f
  proof -
    from that same have f: "f \<in> set (inflight c)" by simp
    with inv have f1: "pf_promise f < next_promise c" "promises c (pf_promise f) = None"
      "\<forall>k2 k'. Waiter k' (pf_promise f) \<notin> set (listeners_of k2 c)"
      by (auto simp: ids_below_def)
    from f ls have "\<forall>k'. Waiter k' (pf_promise f) \<notin> set ls" by auto
    from notify_loop_promises_other [OF loop this] f1(2)
    have "promises c' (pf_promise f) = None" by simp
    moreover have "\<forall>k2 k'. Waiter k' (pf_promise f) \<notin> set (listeners_of k2 c')"
      using f1(3) notify_loop_listeners_subset [OF loop] by blast
    ultimately show ?thesis using f1(1) same by simp
  qed
  from a b c show ?thesis unfolding ids_below_def by blast
qed

lemma notify_as_loop:
  "notify k c = notify_loop k (listeners_of k c) (c\<lparr>trace := trace c @ [Notified k]\<rparr>)"
  by (simp add: notify_def listeners_of_def split: option.split)

lemma notify_rel:
  assumes "notify k c = (x, c')"
  shows "queries c' = queries c \<and> queryFns c' = queryFns c \<and>
         next_promise c' = next_promise c \<and> inflight c' = inflight c"
proof -
  from assms have "notify_loop k (listeners_of k c) (c\<lparr>trace := trace c @ [Notified k]\<rparr>) = (x, c')"
    by (simp add: notify_as_loop)
  from notify_loop_rel [OF this] show ?thesis by simp
qed

lemma notify_ids_below:
  assumes n: "notify k c = (x, c')" and inv: "ids_below c"
  shows "ids_below c'"
proof -
  let ?c0 = "c\<lparr>trace := trace c @ [Notified k]\<rparr>"
  from n have loop: "notify_loop k (listeners_of k c) ?c0 = (x, c')"
    by (simp add: notify_as_loop)
  have "\<forall>k' p. Waiter k' p \<in> set (listeners_of k c) \<longrightarrow>
          p < next_promise ?c0 \<and> p \<notin> pf_promise ` set (inflight ?c0)"
    using inv by (auto simp: ids_below_def)
  from notify_loop_ids_below [OF loop _ this] inv show ?thesis by simp
qed

lemma notify_promises_other:
  assumes n: "notify k c = (x, c')" and "\<forall>k'. Waiter k' p \<notin> set (listeners_of k c)"
  shows "promises c' p = promises c p"
proof -
  from assms have "notify_loop k (listeners_of k c) (c\<lparr>trace := trace c @ [Notified k]\<rparr>) = (x, c')"
    by (simp add: notify_as_loop)
  from notify_loop_promises_other [OF this assms(2)] show ?thesis by simp
qed

lemma notify_listeners_subset:
  assumes n: "notify k c = (x, c')"
  shows "set (listeners_of k' c') \<subseteq> set (listeners_of k' c)"
proof -
  from assms have "notify_loop k (listeners_of k c) (c\<lparr>trace := trace c @ [Notified k]\<rparr>) = (x, c')"
    by (simp add: notify_as_loop)
  from notify_loop_listeners_subset [OF this, of k'] show ?thesis by simp
qed

lemma setQueryState_rel:
  assumes "setQueryState k s c = (x, c')"
  shows "queries c' = (queries c)(k \<mapsto> s) \<and> queryFns c' = queryFns c \<and>
         next_promise c' = next_promise c \<and> inflight c' = inflight c"
proof -
  from assms have "notify k (c\<lparr>queries := (queries c)(k \<mapsto> s), trace := trace c @ [Stored k s]\<rparr>) = (x, c')"
    by (simp add: setQueryState_def)
  from notify_rel [OF this] show ?thesis by simp
qed

lemma setQueryState_ids_below:
  assumes "setQueryState k s c = (x, c')" "ids_below c"
  shows "ids_below c'"
proof -
  from assms have "notify k (c\<lparr>queries := (queries c)(k \<mapsto> s), trace := trace c @ [Stored k s]\<rparr>) = (x, c')"
    by (simp add: setQueryState_def)
  from notify_ids_below [OF this] assms(2) show ?thesis by simp
qed

lemma setQueryState_promises_other:
  assumes "setQueryState k s c = (x, c')" "\<forall>k'. Waiter k' p \<notin> set (listeners_of k c)"
  shows "promises c' p = promises c p"
proof -
  from assms have "notify k (c\<lparr>queries := (queries c)(k \<mapsto> s), trace := trace c @ [Stored k s]\<rparr>) = (x, c')"
    by (simp add: setQueryState_def)
  from notify_promises_other [OF this] assms(2) show ?thesis by simp
qed

lemma setQueryState_listeners_subset:
  assumes "setQueryState k s c = (x, c')"
  shows "set (listeners_of k' c') \<subseteq> set (listeners_of k' c)"
proof -
  from assms have "notify k (c\<lparr>queries := (queries c)(k \<mapsto> s), trace := trace c @ [Stored k s]\<rparr>) = (x, c')"
    by (simp add: setQueryState_def)
  from notify_listeners_subset [OF this, of k'] show ?thesis by simp
qed

lemma settle_ids_below:
  assumes "ids_below c" "p < next_promise c" "p \<notin> pf_promise ` set (inflight c)"
  shows "ids_below (settle p out c)"
  using assms unfolding ids_below_def by (auto simp: promises_settle)

lemma subscribe_fields [simp]:
  "queries (snd (subscribe k l c)) = queries c"
  "queryFns (snd (subscribe k l c)) = queryFns c"
  "promises (snd (subscribe k l c)) = promises c"
  "next_promise (snd (subscribe k l c)) = next_promise c"
  "inflight (snd (subscribe k l c)) = inflight c"
  "trace (snd (subscribe k l c)) = trace c"
  "fst (subscribe k l c) = unsubscribe k l"
  by (simp_all add: subscribe_def Let_def)

lemma listeners_of_subscribe [simp]:
  "listeners_of k' (snd (subscribe k l c)) =
     (if k' = k then (if l \<in> set (listeners_of k c) then listeners_of k c
                      else listeners_of k c @ [l])
      else listeners_of k' c)"
  by (auto simp: subscribe_def listeners_of_def Let_def split: option.split)

lemma subscribe_external_ids_below:
  assumes "ids_below c"
  shows "ids_below (snd (subscribe k (External cb) c))"
  using assms unfolding ids_below_def by auto

lemma subscribe_waiter_ids_below:
  assumes "ids_below c" "p < next_promise c" "p \<notin> pf_promise ` set (inflight c)"
  shows "ids_below (snd (subscribe k (Waiter k p) c))"
  using assms unfolding ids_below_def by (auto split: if_splits)

lemma unsubscribe_ids_below:
  assumes "ids_below c"
  shows "ids_below (unsubscribe k l c)"
  using assms unfolding ids_below_def by (auto split: if_splits)

lemma remember_fields [simp]:
  "queries (remember k fn c) = queries c"
  "queryFns (remember k fn c) = (queryFns c)(k \<mapsto> fn)"
  "listeners (remember k fn c) = listeners c"
  "promises (remember k fn c) = promises c"
  "next_promise (remember k fn c) = Suc (next_promise c)"
  "inflight (remember k fn c) = inflight c"
  "trace (remember k fn c) = trace c"
  "listeners_of k' (remember k fn c) = listeners_of k' c"
  by (simp_all add: remember_def listeners_of_def)

lemma remember_ids_below: "ids_below c \<Longrightarrow> ids_below (remember k fn c)"
  unfolding ids_below_def by (auto simp: less_Suc_eq)

lemma ids_below_inflight:
  assumes "ids_below c" "f \<in> set (inflight c)"
  shows "pf_promise f < next_promise c" "promises c (pf_promise f) = None"
    "Waiter k' (pf_promise f) \<notin> set (listeners_of k c)"
  using assms unfolding ids_below_def by auto


lemma ids_below_fresh:
  assumes "ids_below c" "next_promise c \<le> p"
  shows "promises c p = None" "Waiter k' p \<notin> set (listeners_of k c)"
    "p \<notin> pf_promise ` set (inflight c)"
  using assms unfolding ids_below_def by (force, force, force)

lemma drop_inflight_ids_below:
  assumes "ids_below c"
  shows "ids_below (c\<lparr>inflight := filter P (inflight c)\<rparr>)"
  using assms unfolding ids_below_def by auto

lemma new_client_ids_below: "ids_below new_client"
  by (simp add: ids_below_def new_client_def listeners_of_def)

lemma invoke_fst: "fst (invoke l c) = first_thrown [l]"
  by (induction l c rule: invoke.induct) simp_all

lemma first_thrown_Cons:
  "first_thrown (l # ls) = (case first_thrown [l] of Some x \<Rightarrow> Some x | None \<Rightarrow> first_thrown ls)"
  by (cases l rule: is_thrower.cases) simp_all

lemma is_thrower_first_thrown: "is_thrower l \<longleftrightarrow> first_thrown [l] \<noteq> None"
  by (induction l rule: is_thrower.induct) simp_all

lemma notify_loop_trace:
  "notify_loop k ls c = (x, c') \<Longrightarrow>
     trace c' = trace c @ map (Called k) (upto_first_throw ls) \<and> x = first_thrown ls"
proof (induction ls arbitrary: c)
  case Nil
  then show ?case by simp
next
  case (Cons l ls)
  obtain y c1 where inv: "invoke l (c\<lparr>trace := trace c @ [Called k l]\<rparr>) = (y, c1)"
    by (cases "invoke l (c\<lparr>trace := trace c @ [Called k l]\<rparr>)") auto
  from invoke_rel [OF inv] have t1: "trace c1 = trace c @ [Called k l]" by simp
  from inv invoke_fst [of l "c\<lparr>trace := trace c @ [Called k l]\<rparr>"]
  have y: "y = first_thrown [l]" by simp
  show ?case
  proof (cases y)
    case None
    with Cons.prems inv have "notify_loop k ls c1 = (x, c')" by simp
    from Cons.IH [OF this] t1 None y show ?thesis
      by (simp add: is_thrower_first_thrown first_thrown_Cons [of l ls])
  next
    case (Some z)
    with Cons.prems inv have "c' = c1" "x = Some z" by simp_all
    with t1 Some y show ?thesis
      by (simp add: is_thrower_first_thrown first_thrown_Cons [of l ls])
  qed
qed

lemma no_thrower_all:
  "\<forall>l \<in> set ls. \<not> is_thrower l \<Longrightarrow> upto_first_throw ls = ls \<and> first_thrown ls = None"
proof (induction ls)
  case Nil
  then show ?case by simp
next
  case (Cons l ls)
  then show ?case by (cases l rule: is_thrower.cases) simp_all
qed

lemma notify_trace:
  assumes "notify k c = (x, c')"
  shows "trace c' = trace c @ Notified k # map (Called k) (upto_first_throw (listeners_of k c)) \<and>
         x = first_thrown (listeners_of k c)"
proof -
  from assms have "notify_loop k (listeners_of k c) (c\<lparr>trace := trace c @ [Notified k]\<rparr>) = (x, c')"
    by (simp add: notify_as_loop)
  from notify_loop_trace [OF this] show ?thesis by simp
qed

lemma setQueryState_trace:
  assumes "setQueryState k s c = (x, c')"
  shows "trace c' = trace c @ Stored k s # Notified k #
           map (Called k) (upto_first_throw (listeners_of k c)) \<and>
         x = first_thrown (listeners_of k c)"
proof -
  from assms have "notify k (c\<lparr>queries := (queries c)(k \<mapsto> s), trace := trace c @ [Stored k s]\<rparr>) = (x, c')"
    by (simp add: setQueryState_def)
  from notify_trace [OF this] show ?thesis by simp
qed

lemma unsubscribe_idem: "unsubscribe k l (unsubscribe k l c) = unsubscribe k l c"
  by (auto simp: unsubscribe_def split: option.split)

lemma stored_simps [simp]:
  "stored [] = []"
  "stored (a @ b) = stored a @ stored b"
  "stored (Stored k s # tr) = (k, s) # stored tr"
  "stored (Notified k # tr) = stored tr"
  "stored (Called k l # tr) = stored tr"
  "stored (Fetched k fn # tr) = stored tr"
  by (simp_all add: stored_def)

lemma stored_calls [simp]: "stored (map (Called k) ls) = []"
  by (induction ls) simp_all

lemma setQueryState_stored:
  assumes "setQueryState k s c = (x, c')"
  shows "stored (trace c') = stored (trace c) @ [(k, s)]"
  using setQueryState_trace [OF assms] by simp

lemma written_sinceI:
  "stored (trace c') = stored (trace c) @ ws \<Longrightarrow> written_since c c' = ws"
  by (simp add: written_since_def)

lemma written_since_upd [simp]:
  "written_since (c\<lparr>inflight := fs\<rparr>) c' = written_since c c'"
  "written_since (c\<lparr>queries := qs\<rparr>) c' = written_since c c'"
  by (simp_all add: written_since_def)

lemma loading_state_ok: "state_ok (loading_state e st)"
  by (simp add: state_ok_def loading_state_def)

lemma waiter_acts:
  assumes "queries c k = Some s" "status s = Success \<or> status s = Error"
  shows "waiter k p c = settle p (waiter_outcome s) (unsubscribe k (Waiter k p) c)"
  using assms by (auto simp: waiter_def waiter_outcome_def Let_def)

lemma waiter_waits:
  assumes "queries c k = Some s" "status s = Loading"
  shows "waiter k p c = c"
  using assms by (simp add: waiter_def)

lemma quiet_invoke:
  assumes "\<not> is_thrower l" "invoke l c = (y, c1)"
  shows "y = None"
  using assms by (induction l c rule: invoke.induct) auto

lemma notify_loop_settles_waiter:
  assumes loop: "notify_loop k ls c = (x, c')"
    and st: "queries c k = Some s" "status s = Success \<or> status s = Error"
    and quiet: "\<forall>l \<in> set ls. \<not> is_thrower l"
    and mem: "Waiter k p \<in> set ls"
    and pend: "promises c p = None"
    and uniq: "\<forall>k'. Waiter k' p \<in> set ls \<longrightarrow> k' = k"
  shows "promises c' p = Some (waiter_outcome s) \<and> Waiter k p \<notin> set (listeners_of k c')"
  using loop st(1) quiet mem pend uniq
proof (induction ls arbitrary: c)
  case Nil
  then show ?case by simp
next
  case (Cons l ls)
  let ?c0 = "c\<lparr>trace := trace c @ [Called k l]\<rparr>"
  obtain y c1 where inv: "invoke l ?c0 = (y, c1)" by (cases "invoke l ?c0") auto
  from Cons.prems(3) have "\<not> is_thrower l" by simp
  from quiet_invoke [OF this inv] have y: "y = None" .
  with Cons.prems(1) inv have rest: "notify_loop k ls c1 = (x, c')" by simp
  from invoke_rel [OF inv] Cons.prems(2) have q1: "queries c1 k = Some s" by simp
  show ?case
  proof (cases "l = Waiter k p")
    case True
    with inv have c1: "c1 = waiter k p ?c0" by simp
    from Cons.prems(2) have "queries ?c0 k = Some s" by simp
    from waiter_acts [OF this st(2), of p] c1
    have c1': "c1 = settle p (waiter_outcome s) (unsubscribe k (Waiter k p) ?c0)" by simp
    with Cons.prems(5) have "promises c1 p = Some (waiter_outcome s)"
      by (simp add: promises_settle)
    from notify_loop_promises_Some [OF rest this]
    have "promises c' p = Some (waiter_outcome s)" .
    moreover from c1' have "Waiter k p \<notin> set (listeners_of k c1)" by simp
    with notify_loop_listeners_subset [OF rest, of k]
    have "Waiter k p \<notin> set (listeners_of k c')" by blast
    ultimately show ?thesis by simp
  next
    case False
    with Cons.prems(4) have mem': "Waiter k p \<in> set ls" by simp
    from False Cons.prems(6) have "\<forall>k'. l \<noteq> Waiter k' p" by auto
    from invoke_promises_other [OF inv this] Cons.prems(5)
    have pend': "promises c1 p = None" by simp
    from Cons.prems(3,6) have "\<forall>l \<in> set ls. \<not> is_thrower l"
      "\<forall>k'. Waiter k' p \<in> set ls \<longrightarrow> k' = k" by simp_all
    from Cons.IH [OF rest q1 this(1) mem' pend' this(2)] show ?thesis .
  qed
qed

lemma notify_loop_while_loading:
  assumes loop: "notify_loop k ls c = (x, c')"
    and st: "queries c k = Some s" "status s = Loading"
    and quiet: "\<forall>l \<in> set ls. \<not> is_thrower l"
    and keys: "\<forall>k' p. Waiter k' p \<in> set ls \<longrightarrow> k' = k"
  shows "promises c' = promises c \<and> listeners c' = listeners c"
  using loop st(1) quiet keys
proof (induction ls arbitrary: c)
  case Nil
  then show ?case by simp
next
  case (Cons l ls)
  let ?c0 = "c\<lparr>trace := trace c @ [Called k l]\<rparr>"
  have c1: "invoke l ?c0 = (None, ?c0)"
  proof (cases l)
    case (Waiter k' p)
    with Cons.prems(4) have "k' = k" by simp
    with Waiter waiter_waits [of ?c0 k s p] Cons.prems(2) st(2) show ?thesis by simp
  next
    case (External cb)
    with Cons.prems(3) show ?thesis by (cases cb) simp_all
  qed
  with Cons.prems(1) have rest: "notify_loop k ls ?c0 = (x, c')" by simp
  from Cons.prems have "queries ?c0 k = Some s" "\<forall>l \<in> set ls. \<not> is_thrower l"
    "\<forall>k' p. Waiter k' p \<in> set ls \<longrightarrow> k' = k" by simp_all
  from Cons.IH [OF rest this] show ?case by simp
qed

lemma quiet_first_thrown:
  "\<forall>l \<in> set ls. \<not> is_thrower l \<Longrightarrow> first_thrown ls = None"
  using no_thrower_all by blast

lemma setQueryState_settles_waiter:
  assumes set: "setQueryState k s c = (x, c')"
    and st: "status s = Success \<or> status s = Error"
    and quiet: "\<forall>l \<in> set (listeners_of k c). \<not> is_thrower l"
    and mem: "Waiter k p \<in> set (listeners_of k c)"
    and pend: "promises c p = None"
    and inv: "ids_below c"
  shows "promises c' p = Some (waiter_outcome s) \<and> Waiter k p \<notin> set (listeners_of k c')"
proof -
  let ?c0 = "c\<lparr>queries := (queries c)(k \<mapsto> s), trace := trace c @ [Stored k s, Notified k]\<rparr>"
  from set have loop: "notify_loop k (listeners_of k c) ?c0 = (x, c')"
    by (simp add: setQueryState_def notify_as_loop)
  have uniq: "\<forall>k'. Waiter k' p \<in> set (listeners_of k c) \<longrightarrow> k' = k"
    using inv unfolding ids_below_def by blast
  from notify_loop_settles_waiter [OF loop _ st quiet mem _ uniq] pend
  show ?thesis by simp
qed

lemma setQueryState_quiet:
  assumes set: "setQueryState k s c = (x, c')"
    and quiet: "\<forall>l \<in> set (listeners_of k c). \<not> is_thrower l"
  shows "x = None \<and>
         trace c' = trace c @ Stored k s # Notified k # map (Called k) (listeners_of k c)"
  using setQueryState_trace [OF set] no_thrower_all [OF quiet] by simp

lemma setQueryState_while_loading:
  assumes set: "setQueryState k s c = (x, c')"
    and st: "status s = Loading"
    and quiet: "\<forall>l \<in> set (listeners_of k c). \<not> is_thrower l"
    and inv: "ids_below c"
  shows "promises c' = promises c \<and> listeners c' = listeners c"
proof -
  let ?c0 = "c\<lparr>queries := (queries c)(k \<mapsto> s), trace := trace c @ [Stored k s, Notified k]\<rparr>"
  from set have loop: "notify_loop k (listeners_of k c) ?c0 = (x, c')"
    by (simp add: setQueryState_def notify_as_loop)
  have keys: "\<forall>k' p. Waiter k' p \<in> set (listeners_of k c) \<longrightarrow> k' = k"
    using inv unfolding ids_below_def by blast
  from notify_loop_while_loading [OF loop _ st quiet keys] show ?thesis by simp
qed

lemma find_inflight:
  assumes "find (\<lambda>g. pf_promise g = p) (inflight c) = Some f"
  shows "f \<in> set (inflight c)" "pf_promise f = p"
  using assms by (auto simp: find_Some_iff)

lemma complete_found:
  assumes "find (\<lambda>g. pf_promise g = p) (inflight c) = Some f"
  shows "complete now p r c =
           resume now f r (c\<lparr>inflight := filter (\<lambda>g. pf_promise g \<noteq> p) (inflight c)\<rparr>)"
  using assms by (simp add: complete_def)

lemma run_append: "run (xs @ ys) c = run ys (run xs c)"
  by (induction xs arbitrary: c) simp_all

lemma fetches_simps [simp]:
  "fetches k [] = []"
  "fetches k (a @ b) = fetches k a @ fetches k b"
  "fetches k (Stored k' s # tr) = fetches k tr"
  "fetches k (Notified k' # tr) = fetches k tr"
  "fetches k (Called k' l # tr) = fetches k tr"
  "fetches k (Fetched k' fn # tr) = (if k' = k then fn # fetches k tr else fetches k tr)"
  by (simp_all add: fetches_def)

lemma fetches_calls [simp]: "fetches k (map (Called k') ls) = []"
  by (induction ls) simp_all

lemma quiet_upd [simp]:
  "quiet k (c\<lparr>trace := t\<rparr>) = quiet k c"
  "quiet k (c\<lparr>queries := q\<rparr>) = quiet k c"
  "quiet k (c\<lparr>inflight := fs\<rparr>) = quiet k c"
  "quiet k (remember k' fn c) = quiet k c"
  by (simp_all add: quiet_def)

lemma starts_iff:
  "starts now k c \<longleftrightarrow>
     (\<forall>q. queries c k = Some q \<longrightarrow>
        status q \<noteq> Loading \<and> \<not> (status q = Success \<and> now - lastFetchedAt q < staleTime q))"
  by (simp add: starts_def split: option.split)

lemma starts_upd [simp]:
  "starts now k (c\<lparr>trace := t\<rparr>) = starts now k c"
  "starts now k (c\<lparr>inflight := fs\<rparr>) = starts now k c"
  by (simp_all add: starts_def)

lemma call_record_fields [simp]:
  "pf_promise (call_record k opt c) = next_promise c"
  "pf_key (call_record k opt c) = k"
  "pf_staleTime (call_record k opt c) = (case opt of None \<Rightarrow> 0 | Some s \<Rightarrow> s)"
  "pf_existingQuery (call_record k opt c) = queries c k"
  by (simp_all add: call_record_def)

lemma catch_block_cases [case_names unprintable written]:
  obtains y where "normalize x = Inl y"
      "catch_block f x c = settle (pf_promise f) (Rejected y) c"
  | err y c1 where "normalize x = Inr err"
      "setQueryState (pf_key f) (error_state (pf_existingQuery f) err (pf_staleTime f)) c = (y, c1)"
      "catch_block f x c =
         settle (pf_promise f) (Rejected (case y of None \<Rightarrow> ErrorObject err | Some z \<Rightarrow> z)) c1"
proof (cases "normalize x")
  case (Inl y)
  then show ?thesis using that(1) by (simp add: catch_block_def)
next
  case (Inr err)
  let ?s = "error_state (pf_existingQuery f) err (pf_staleTime f)"
  obtain y c1 where set: "setQueryState (pf_key f) ?s c = (y, c1)"
    by (cases "setQueryState (pf_key f) ?s c") auto
  with Inr have "catch_block f x c =
      settle (pf_promise f) (Rejected (case y of None \<Rightarrow> ErrorObject err | Some z \<Rightarrow> z)) c1"
    by (cases y) (simp_all add: catch_block_def)
  with Inr set show ?thesis using that(2) by blast
qed

lemma resume_cases [case_names rejected resolved caught]:
  obtains x where "r = Rejects x" "resume now f r c = catch_block f x c"
  | d c1 where "r = Resolves d"
      "setQueryState (pf_key f) (success_state d now (pf_staleTime f)) c = (None, c1)"
      "resume now f r c = settle (pf_promise f) (Resolved d) c1"
  | d z c1 where "r = Resolves d"
      "setQueryState (pf_key f) (success_state d now (pf_staleTime f)) c = (Some z, c1)"
      "resume now f r c = catch_block f z c1"
proof (cases r)
  case (Rejects x)
  then show ?thesis using that(1) by (simp add: resume_def)
next
  case (Resolves d)
  let ?s = "success_state d now (pf_staleTime f)"
  obtain y c1 where set: "setQueryState (pf_key f) ?s c = (y, c1)"
    by (cases "setQueryState (pf_key f) ?s c") auto
  show ?thesis
  proof (cases y)
    case None
    with Resolves set show ?thesis using that(2) by (simp add: resume_def)
  next
    case (Some z)
    with Resolves set show ?thesis using that(3) by (simp add: resume_def)
  qed
qed

lemma fetchQuery_hit:
  assumes "queries c k = Some q" "status q = Success" "now - lastFetchedAt q < staleTime q"
  shows "fetchQuery now k fn opt c =
           (next_promise c, settle (next_promise c) (Resolved (data q)) (remember k fn c))"
  using assms by (simp add: fetchQuery_def remember_def Let_def)

lemma fetchQuery_join:
  assumes "queries c k = Some q" "status q = Loading"
  shows "fetchQuery now k fn opt c =
           (next_promise c, snd (subscribe k (Waiter k (next_promise c)) (remember k fn c)))"
  using assms by (simp add: fetchQuery_def remember_def Let_def)

lemma fetchQuery_start:
  assumes "starts now k c"
  shows "fetchQuery now k fn opt c =
           (case setQueryState k (loading_state (queries c k) (case opt of None \<Rightarrow> 0 | Some s \<Rightarrow> s))
                   (remember k fn c) of
              (Some x, c2) \<Rightarrow> (next_promise c, settle (next_promise c) (Rejected x) c2)
            | (None, c2) \<Rightarrow>
                (case fn of
                   Asynchronous n \<Rightarrow>
                     (next_promise c,
                      c2\<lparr>trace := trace c2 @ [Fetched k fn],
                         inflight := inflight c2 @ [call_record k opt c]\<rparr>)
                 | Throwing n x \<Rightarrow>
                     (next_promise c,
                      catch_block (call_record k opt c) x (c2\<lparr>trace := trace c2 @ [Fetched k fn]\<rparr>))))"
  using assms
  by (cases "queries c k")
     (auto simp: starts_def fetchQuery_def remember_def call_record_def Let_def
           split: prod.split option.split queryFn.split)

lemma fetchQuery_cases [case_names hit join refused suspends throws]:
  obtains q where "queries c k = Some q" "status q = Success"
      "now - lastFetchedAt q < staleTime q"
      "fetchQuery now k fn opt c =
         (next_promise c, settle (next_promise c) (Resolved (data q)) (remember k fn c))"
  | q where "queries c k = Some q" "status q = Loading"
      "fetchQuery now k fn opt c =
         (next_promise c, snd (subscribe k (Waiter k (next_promise c)) (remember k fn c)))"
  | z c2 where "starts now k c"
      "setQueryState k (loading_state (queries c k) (case opt of None \<Rightarrow> 0 | Some s \<Rightarrow> s))
         (remember k fn c) = (Some z, c2)"
      "fetchQuery now k fn opt c = (next_promise c, settle (next_promise c) (Rejected z) c2)"
  | n c2 where "starts now k c" "fn = Asynchronous n"
      "setQueryState k (loading_state (queries c k) (case opt of None \<Rightarrow> 0 | Some s \<Rightarrow> s))
         (remember k fn c) = (None, c2)"
      "fetchQuery now k fn opt c =
         (next_promise c,
          c2\<lparr>trace := trace c2 @ [Fetched k fn],
             inflight := inflight c2 @ [call_record k opt c]\<rparr>)"
  | n x c2 where "starts now k c" "fn = Throwing n x"
      "setQueryState k (loading_state (queries c k) (case opt of None \<Rightarrow> 0 | Some s \<Rightarrow> s))
         (remember k fn c) = (None, c2)"
      "fetchQuery now k fn opt c =
         (next_promise c,
          catch_block (call_record k opt c) x (c2\<lparr>trace := trace c2 @ [Fetched k fn]\<rparr>))"
proof (cases "starts now k c")
  case True
  let ?s = "loading_state (queries c k) (case opt of None \<Rightarrow> 0 | Some s \<Rightarrow> s)"
  obtain y c2 where set: "setQueryState k ?s (remember k fn c) = (y, c2)"
    by (cases "setQueryState k ?s (remember k fn c)") auto
  show ?thesis
  proof (cases y)
    case (Some z)
    with True set show ?thesis using that(3) by (simp add: fetchQuery_start)
  next
    case None
    show ?thesis
    proof (cases fn)
      case (Asynchronous n)
      with None True set show ?thesis using that(4) by (simp add: fetchQuery_start)
    next
      case (Throwing n x)
      with None True set show ?thesis using that(5) by (simp add: fetchQuery_start)
    qed
  qed
next
  case False
  then obtain q where q: "queries c k = Some q"
    "status q = Loading \<or> (status q = Success \<and> now - lastFetchedAt q < staleTime q)"
    by (auto simp: starts_iff)
  show ?thesis
  proof (cases "status q = Loading")
    case True
    with q(1) show ?thesis using that(2) fetchQuery_join by blast
  next
    case False
    with q show ?thesis using that(1) fetchQuery_hit by blast
  qed
qed

lemma fetchQuery_fst [simp]: "fst (fetchQuery now k fn opt c) = next_promise c"
  by (cases rule: fetchQuery_cases [of c k now fn opt]) simp_all


lemma catch_block_frame:
  "next_promise (catch_block f x c) = next_promise c \<and>
   queryFns (catch_block f x c) = queryFns c \<and>
   inflight (catch_block f x c) = inflight c \<and>
   set (listeners_of k' (catch_block f x c)) \<subseteq> set (listeners_of k' c)"
proof (cases rule: catch_block_cases [of x f c])
  case (unprintable y)
  then show ?thesis by simp
next
  case (written err y c1)
  from setQueryState_rel [OF written(2)] setQueryState_listeners_subset [OF written(2), of k']
    written(3)
  show ?thesis by simp
qed

lemma catch_block_ids_below:
  assumes inv: "ids_below c" and p: "pf_promise f < next_promise c"
    "pf_promise f \<notin> pf_promise ` set (inflight c)"
  shows "ids_below (catch_block f x c)"
proof (cases rule: catch_block_cases [of x f c])
  case (unprintable y)
  with settle_ids_below [OF inv p] show ?thesis by simp
next
  case (written err y c1)
  have inv1: "ids_below c1" using setQueryState_ids_below [OF written(2) inv] .
  from setQueryState_rel [OF written(2)] p
  have "pf_promise f < next_promise c1" "pf_promise f \<notin> pf_promise ` set (inflight c1)"
    by simp_all
  from settle_ids_below [OF inv1 this] written(3) show ?thesis by simp
qed

lemma resume_frame:
  "next_promise (resume now f r c) = next_promise c \<and>
   queryFns (resume now f r c) = queryFns c \<and>
   inflight (resume now f r c) = inflight c \<and>
   set (listeners_of k' (resume now f r c)) \<subseteq> set (listeners_of k' c)"
proof (cases rule: resume_cases [of r now f c])
  case (rejected x)
  then show ?thesis using catch_block_frame [of f x c k'] by simp
next
  case (resolved d c1)
  from setQueryState_rel [OF resolved(2)] setQueryState_listeners_subset [OF resolved(2), of k']
    resolved(3)
  show ?thesis by simp
next
  case (caught d z c1)
  from setQueryState_rel [OF caught(2)] setQueryState_listeners_subset [OF caught(2), of k']
    caught(3) catch_block_frame [of f z c1 k']
  show ?thesis by auto
qed

lemma resume_ids_below:
  assumes inv: "ids_below c" and p: "pf_promise f < next_promise c"
    "pf_promise f \<notin> pf_promise ` set (inflight c)"
  shows "ids_below (resume now f r c)"
proof (cases rule: resume_cases [of r now f c])
  case (rejected x)
  then show ?thesis using catch_block_ids_below [OF assms] by simp
next
  case (resolved d c1)
  have inv1: "ids_below c1" using setQueryState_ids_below [OF resolved(2) inv] .
  from setQueryState_rel [OF resolved(2)] p
  have "pf_promise f < next_promise c1" "pf_promise f \<notin> pf_promise ` set (inflight c1)"
    by simp_all
  from settle_ids_below [OF inv1 this] resolved(3) show ?thesis by simp
next
  case (caught d z c1)
  have inv1: "ids_below c1" using setQueryState_ids_below [OF caught(2) inv] .
  from setQueryState_rel [OF caught(2)] p
  have "pf_promise f < next_promise c1" "pf_promise f \<notin> pf_promise ` set (inflight c1)"
    by simp_all
  from catch_block_ids_below [OF inv1 this] caught(3) show ?thesis by simp
qed

lemma complete_frame:
  "next_promise (complete now p r c) = next_promise c \<and>
   queryFns (complete now p r c) = queryFns c \<and>
   set (inflight (complete now p r c)) \<subseteq> set (inflight c) \<and>
   set (listeners_of k' (complete now p r c)) \<subseteq> set (listeners_of k' c)"
proof (cases "find (\<lambda>g. pf_promise g = p) (inflight c)")
  case None
  then show ?thesis by (simp add: complete_def)
next
  case (Some f)
  show ?thesis
    using resume_frame [of now f r "c\<lparr>inflight := filter (\<lambda>g. pf_promise g \<noteq> p) (inflight c)\<rparr>" k']
    by (auto simp: complete_found [OF Some])
qed

lemma complete_ids_below:
  assumes inv: "ids_below c"
  shows "ids_below (complete now p r c)"
proof (cases "find (\<lambda>f. pf_promise f = p) (inflight c)")
  case None
  then show ?thesis using inv by (simp add: complete_def)
next
  case (Some f)
  then have f: "f \<in> set (inflight c)" "pf_promise f = p"
    by (auto simp: find_Some_iff)
  let ?c0 = "c\<lparr>inflight := filter (\<lambda>g. pf_promise g \<noteq> p) (inflight c)\<rparr>"
  have "ids_below ?c0" using inv by (rule drop_inflight_ids_below)
  moreover have "pf_promise f < next_promise ?c0" using f inv by (auto simp: ids_below_def)
  moreover have "pf_promise f \<notin> pf_promise ` set (inflight ?c0)" using f by auto
  ultimately have "ids_below (resume now f r ?c0)" by (rule resume_ids_below)
  with Some show ?thesis by (simp add: complete_def)
qed

lemma add_inflight_ids_below:
  assumes inv: "ids_below c" and p: "pf_promise f < next_promise c" "promises c (pf_promise f) = None"
    "\<forall>k2 k'. Waiter k' (pf_promise f) \<notin> set (listeners_of k2 c)"
  shows "ids_below (c\<lparr>trace := t, inflight := inflight c @ [f]\<rparr>)"
  using assms unfolding ids_below_def by (auto simp: listeners_of_def)

lemma fetchQuery_frame:
  "next_promise (snd (fetchQuery now k fn opt c)) = Suc (next_promise c) \<and>
   queryFns (snd (fetchQuery now k fn opt c)) = (queryFns c)(k \<mapsto> fn) \<and>
   set (inflight (snd (fetchQuery now k fn opt c))) \<subseteq> insert (call_record k opt c) (set (inflight c)) \<and>
   set (listeners_of k' (snd (fetchQuery now k fn opt c))) \<subseteq>
      insert (Waiter k (next_promise c)) (set (listeners_of k' c))"
proof (cases rule: fetchQuery_cases [of c k now fn opt])
  case (hit q)
  then show ?thesis by auto
next
  case (join q)
  then show ?thesis by auto
next
  case (refused z c2)
  from setQueryState_rel [OF refused(2)] setQueryState_listeners_subset [OF refused(2), of k']
    refused(3)
  show ?thesis by auto
next
  case (suspends n c2)
  from setQueryState_rel [OF suspends(3)] setQueryState_listeners_subset [OF suspends(3), of k']
    suspends(4)
  show ?thesis by auto
next
  case (throws n x c2)
  from setQueryState_rel [OF throws(3)] setQueryState_listeners_subset [OF throws(3), of k']
    throws(4)
    catch_block_frame [of "call_record k opt c" x "c2\<lparr>trace := trace c2 @ [Fetched k fn]\<rparr>" k']
  show ?thesis by auto
qed

lemma fetchQuery_ids_below:
  assumes inv: "ids_below c"
  shows "ids_below (snd (fetchQuery now k fn opt c))"
proof -
  let ?p = "next_promise c"
  let ?c1 = "remember k fn c"
  have inv1: "ids_below ?c1" using inv by (rule remember_ids_below)
  have fresh: "?p < next_promise ?c1" "?p \<notin> pf_promise ` set (inflight ?c1)"
    "promises ?c1 ?p = None" "\<forall>k2 k'. Waiter k' ?p \<notin> set (listeners_of k2 ?c1)"
    using ids_below_fresh [OF inv order_refl] by simp_all
  have after: "ids_below c2 \<and> next_promise c2 = Suc ?p \<and> inflight c2 = inflight c \<and>
      promises c2 ?p = None \<and> (\<forall>k2 k'. Waiter k' ?p \<notin> set (listeners_of k2 c2))"
    if set: "setQueryState k s ?c1 = (x, c2)" for s x c2
  proof -
    from setQueryState_listeners_subset [OF set] fresh(4)
    have "\<forall>k2 k'. Waiter k' ?p \<notin> set (listeners_of k2 c2)" by blast
    moreover from setQueryState_promises_other [OF set, of ?p] fresh(3,4)
    have "promises c2 ?p = None" by simp
    ultimately show ?thesis
      using setQueryState_ids_below [OF set inv1] setQueryState_rel [OF set] by simp
  qed
  show ?thesis
  proof (cases rule: fetchQuery_cases [of c k now fn opt])
    case (hit q)
    then show ?thesis using settle_ids_below [OF inv1 fresh(1,2)] by simp
  next
    case (join q)
    then show ?thesis using subscribe_waiter_ids_below [OF inv1 fresh(1,2)] by simp
  next
    case (refused z c2)
    from after [OF refused(2)] have "ids_below (settle ?p (Rejected z) c2)"
      using settle_ids_below [of c2 ?p] fresh(2) by simp
    with refused(3) show ?thesis by simp
  next
    case (suspends n c2)
    from after [OF suspends(3)]
    have "ids_below (c2\<lparr>trace := trace c2 @ [Fetched k fn],
            inflight := inflight c2 @ [call_record k opt c]\<rparr>)"
      using add_inflight_ids_below [of c2 "call_record k opt c"] by simp
    with suspends(4) show ?thesis by simp
  next
    case (throws n x c2)
    let ?c3 = "c2\<lparr>trace := trace c2 @ [Fetched k fn]\<rparr>"
    from after [OF throws(3)] fresh(2)
    have "ids_below ?c3" "pf_promise (call_record k opt c) < next_promise ?c3"
      "pf_promise (call_record k opt c) \<notin> pf_promise ` set (inflight ?c3)"
      by simp_all
    from catch_block_ids_below [OF this] throws(4) show ?thesis by simp
  qed
qed

lemma invalidateQuery_cases [case_names idle refetch]:
  obtains "queries c k = None \<or> queryFns c k = None" "invalidateQuery now k c = c"
  | q fn where "queries c k = Some q" "queryFns c k = Some fn"
      "invalidateQuery now k c =
         snd (fetchQuery now k fn (Some (staleTime q)) (c\<lparr>queries := (queries c)(k := None)\<rparr>))"
  by (cases "queries c k"; cases "queryFns c k") (auto simp: invalidateQuery_def)

lemma invalidateQuery_ids_below:
  assumes inv: "ids_below c"
  shows "ids_below (invalidateQuery now k c)"
proof (cases rule: invalidateQuery_cases [of c k now])
  case idle
  with inv show ?thesis by simp
next
  case (refetch q fn)
  have "ids_below (c\<lparr>queries := (queries c)(k := None)\<rparr>)" using inv by simp
  from fetchQuery_ids_below [OF this] refetch(3) show ?thesis by simp
qed

lemma step_ids_below: "ids_below c \<Longrightarrow> ids_below (step x c)"
  by (cases x)
     (simp_all add: fetchQuery_ids_below invalidateQuery_ids_below complete_ids_below
        subscribe_external_ids_below unsubscribe_ids_below)

lemma run_ids_below: "ids_below c \<Longrightarrow> ids_below (run xs c)"
  by (induction xs arbitrary: c) (simp_all add: step_ids_below)

lemma reachable_ids_below: "ids_below (run xs new_client)"
  by (rule run_ids_below [OF new_client_ids_below])

lemma fetchQuery_queryFns:
  "queryFns (snd (fetchQuery now k fn opt c)) = (queryFns c)(k \<mapsto> fn)"
  using fetchQuery_frame [of now k fn opt c] by simp

lemma fetchQuery_next_promise:
  "next_promise (snd (fetchQuery now k fn opt c)) = Suc (next_promise c)"
  using fetchQuery_frame [of now k fn opt c] by simp

lemma apply_writes_append: "apply_writes (a @ b) m = apply_writes b (apply_writes a m)"
  by (induction a arbitrary: m) auto

lemma apply_writes_lookup:
  "apply_writes ws m k = Some q \<Longrightarrow> m k = Some q \<or> (k, q) \<in> set ws"
proof (induction ws arbitrary: m)
  case Nil
  then show ?case by simp
next
  case (Cons e ws)
  obtain k' s where e: "e = (k', s)" by (cases e) auto
  with Cons.prems have "apply_writes ws (m(k' \<mapsto> s)) k = Some q" by simp
  from Cons.IH [OF this] have "(m(k' \<mapsto> s)) k = Some q \<or> (k, q) \<in> set ws" .
  with e show ?case by (cases "k = k'") auto
qed

lemma apply_writes_last:
  "ws \<noteq> [] \<Longrightarrow> \<forall>e \<in> set ws. fst e = k \<Longrightarrow> apply_writes ws m = m(k \<mapsto> snd (last ws))"
proof (induction ws arbitrary: m)
  case Nil
  then show ?case by simp
next
  case (Cons e ws)
  obtain k' s where e: "e = (k', s)" by (cases e) auto
  with Cons.prems have k': "k' = k" by simp
  show ?case
  proof (cases ws)
    case Nil
    with e k' show ?thesis by simp
  next
    case (Cons e' ws')
    then have ne: "ws \<noteq> []" by simp
    from Cons.prems have all: "\<forall>e \<in> set ws. fst e = k" by simp
    have "apply_writes ws (m(k \<mapsto> s)) = (m(k \<mapsto> s))(k \<mapsto> snd (last ws))"
      by (rule Cons.IH [OF ne all])
    then have "apply_writes ws (m(k \<mapsto> s)) = m(k \<mapsto> snd (last ws))" by simp
    with e k' ne show ?thesis by simp
  qed
qed

lemma written_since_refl [simp]: "written_since c c = []"
  by (simp add: written_since_def)

lemma written_since_right [simp]:
  "written_since c (settle p out c') = written_since c c'"
  "written_since c (c'\<lparr>inflight := fs\<rparr>) = written_since c c'"
  "written_since c (c'\<lparr>trace := trace c' @ [Fetched k fn]\<rparr>) = written_since c c'"
  "written_since c (remember k fn c') = written_since c c'"
  "written_since c (snd (subscribe k l c')) = written_since c c'"
  "written_since c (unsubscribe k l c') = written_since c c'"
  "written_since (c\<lparr>trace := trace c @ [Fetched k fn]\<rparr>) c' = written_since c c'"
  "written_since (remember k fn c) c' = written_since c c'"
  by (simp_all add: written_since_def)

lemma followsI:
  assumes "stored (trace c') = stored (trace c) @ ws" "queries c' = apply_writes ws (queries c)"
  shows "follows c c' \<and> written_since c c' = ws"
  using assms by (simp add: follows_def written_since_def)

lemma follows_trans:
  assumes "follows c c1" "follows c1 c2"
  shows "follows c c2 \<and> written_since c c2 = written_since c c1 @ written_since c1 c2"
proof -
  from assms have "stored (trace c2) = stored (trace c) @ (written_since c c1 @ written_since c1 c2)"
    "queries c2 = apply_writes (written_since c c1 @ written_since c1 c2) (queries c)"
    by (simp_all add: follows_def apply_writes_append)
  from followsI [OF this] show ?thesis .
qed

lemma follows_simple [simp]:
  "follows c c"
  "follows c (settle p out c') = follows c c'"
  "follows c (c'\<lparr>inflight := fs\<rparr>) = follows c c'"
  "follows c (c'\<lparr>trace := trace c' @ [Fetched k fn]\<rparr>) = follows c c'"
  "follows c (remember k fn c') = follows c c'"
  "follows c (snd (subscribe k l c')) = follows c c'"
  "follows c (unsubscribe k l c') = follows c c'"
  "follows (c\<lparr>trace := trace c @ [Fetched k fn]\<rparr>) c' = follows c c'"
  "follows (remember k fn c) c' = follows c c'"
  "follows (c\<lparr>inflight := fs\<rparr>) c' = follows c c'"
  by (simp_all add: follows_def)

lemma setQueryState_follows:
  assumes "setQueryState k s c = (x, c')"
  shows "follows c c' \<and> written_since c c' = [(k, s)]"
  using followsI [of c' c "[(k, s)]"] setQueryState_stored [OF assms] setQueryState_rel [OF assms]
  by simp

lemma catch_block_follows:
  "follows c (catch_block f x c) \<and> written_since c (catch_block f x c) = catch_writes f x"
proof (cases rule: catch_block_cases [of x f c])
  case (unprintable y)
  then show ?thesis by (simp add: catch_writes_def)
next
  case (written err y c1)
  from setQueryState_follows [OF written(2)] written(1,3) show ?thesis
    by (simp add: catch_writes_def)
qed

lemma resume_follows:
  "follows c (resume now f r c) \<and>
   written_since c (resume now f r c) =
     (case r of
        Rejects x \<Rightarrow> catch_writes f x
      | Resolves d \<Rightarrow>
          (pf_key f, success_state d now (pf_staleTime f)) #
          (case first_thrown (listeners_of (pf_key f) c) of
             None \<Rightarrow> []
           | Some z \<Rightarrow> catch_writes f z))"
proof (cases rule: resume_cases [of r now f c])
  case (rejected x)
  then show ?thesis using catch_block_follows [of c f x] by simp
next
  case (resolved d c1)
  from setQueryState_trace [OF resolved(2)]
  have z: "first_thrown (listeners_of (pf_key f) c) = None" by simp
  from setQueryState_follows [OF resolved(2)] resolved(1,3) z
  show ?thesis by simp
next
  case (caught d z c1)
  from setQueryState_trace [OF caught(2)]
  have z: "first_thrown (listeners_of (pf_key f) c) = Some z" by simp
  from follows_trans [of c c1 "catch_block f z c1"] setQueryState_follows [OF caught(2)]
    catch_block_follows [of c1 f z]
  have "follows c (catch_block f z c1)"
    "written_since c (catch_block f z c1) =
       (pf_key f, success_state d now (pf_staleTime f)) # catch_writes f z"
    by simp_all
  with caught(1,3) z show ?thesis by simp
qed

lemma complete_follows:
  "follows c (complete now p r c) \<and>
   written_since c (complete now p r c) =
     (case find (\<lambda>g. pf_promise g = p) (inflight c) of
        None \<Rightarrow> []
      | Some f \<Rightarrow>
          (case r of
             Rejects x \<Rightarrow> catch_writes f x
           | Resolves d \<Rightarrow>
               (pf_key f, success_state d now (pf_staleTime f)) #
               (case first_thrown (listeners_of (pf_key f) c) of
                  None \<Rightarrow> []
                | Some z \<Rightarrow> catch_writes f z)))"
proof (cases "find (\<lambda>g. pf_promise g = p) (inflight c)")
  case None
  then show ?thesis by (simp add: complete_def)
next
  case (Some f)
  let ?c0 = "c\<lparr>inflight := filter (\<lambda>g. pf_promise g \<noteq> p) (inflight c)\<rparr>"
  from resume_follows [of ?c0 now f r] Some show ?thesis
    by (simp add: complete_found [OF Some] split: fetch_result.split)
qed

lemma fetchQuery_follows:
  "follows c (snd (fetchQuery now k fn opt c)) \<and>
   written_since c (snd (fetchQuery now k fn opt c)) =
     (if starts now k c
      then (k, loading_state (queries c k) (case opt of None \<Rightarrow> 0 | Some s \<Rightarrow> s)) #
           (case first_thrown (listeners_of k c) of
              Some z \<Rightarrow> []
            | None \<Rightarrow>
                (case fn of
                   Asynchronous n \<Rightarrow> []
                 | Throwing n x \<Rightarrow> catch_writes (call_record k opt c) x))
      else [])"
proof (cases rule: fetchQuery_cases [of c k now fn opt])
  case (hit q)
  then show ?thesis by (simp add: starts_def)
next
  case (join q)
  then show ?thesis by (simp add: starts_def)
next
  case (refused z c2)
  from setQueryState_trace [OF refused(2)]
  have z: "first_thrown (listeners_of k c) = Some z" by simp
  from setQueryState_follows [OF refused(2)] refused(1,3) z
  show ?thesis by simp
next
  case (suspends n c2)
  from setQueryState_trace [OF suspends(3)]
  have z: "first_thrown (listeners_of k c) = None" by simp
  from setQueryState_follows [OF suspends(3)] suspends(1,2,4) z
  show ?thesis by simp
next
  case (throws n x c2)
  let ?c3 = "c2\<lparr>trace := trace c2 @ [Fetched k fn]\<rparr>"
  let ?f = "call_record k opt c"
  from setQueryState_trace [OF throws(3)]
  have z: "first_thrown (listeners_of k c) = None" by simp
  from setQueryState_follows [OF throws(3)]
  have a: "follows c ?c3" "written_since c ?c3 =
      [(k, loading_state (queries c k) (case opt of None \<Rightarrow> 0 | Some s \<Rightarrow> s))]"
    by simp_all
  from follows_trans [OF a(1), of "catch_block ?f x ?c3"] catch_block_follows [of ?c3 ?f x] a(2)
  have "follows c (catch_block ?f x ?c3)"
    "written_since c (catch_block ?f x ?c3) =
       (k, loading_state (queries c k) (case opt of None \<Rightarrow> 0 | Some s \<Rightarrow> s)) # catch_writes ?f x"
    by simp_all
  with throws(1,2,4) z show ?thesis by simp
qed

lemma catch_writes_facts:
  "\<forall>e \<in> set (catch_writes f x).
     fst e = pf_key f \<and> staleTime (snd e) = pf_staleTime f \<and> status (snd e) = Error \<and>
     state_ok (snd e)"
  by (auto simp: catch_writes_def error_state_def state_ok_def split: sum.splits)

lemma follows_states_ok:
  assumes "follows c c'" "\<forall>e \<in> set (written_since c c'). state_ok (snd e)" "states_ok c"
  shows "states_ok c'"
  unfolding states_ok_def
proof (intro allI impI)
  fix k q
  assume "queries c' k = Some q"
  with assms(1) have "apply_writes (written_since c c') (queries c) k = Some q"
    by (simp add: follows_def)
  from apply_writes_lookup [OF this] assms(2,3) show "state_ok q"
    by (auto simp: states_ok_def)
qed

lemma fetchQuery_writes_ok:
  "\<forall>e \<in> set (written_since c (snd (fetchQuery now k fn opt c))).
     fst e = k \<and> staleTime (snd e) = (case opt of None \<Rightarrow> 0 | Some s \<Rightarrow> s) \<and>
     status (snd e) \<noteq> Success \<and> state_ok (snd e)"
proof -
  let ?st = "case opt of None \<Rightarrow> 0 | Some s \<Rightarrow> s"
  let ?L = "(k, loading_state (queries c k) ?st)"
  let ?W = "written_since c (snd (fetchQuery now k fn opt c))"
  have L: "fst ?L = k \<and> staleTime (snd ?L) = ?st \<and> status (snd ?L) \<noteq> Success \<and>
           state_ok (snd ?L)"
    by (simp add: loading_state_def state_ok_def)
  have C: "\<forall>e \<in> set (catch_writes (call_record k opt c) x).
      fst e = k \<and> staleTime (snd e) = ?st \<and> status (snd e) \<noteq> Success \<and> state_ok (snd e)" for x
    using catch_writes_facts [of "call_record k opt c" x] by simp
  have "?W = [] \<or> ?W = [?L] \<or> (\<exists>x. ?W = ?L # catch_writes (call_record k opt c) x)"
    using fetchQuery_follows [of c now k fn opt]
    by (auto split: option.splits queryFn.splits if_splits)
  then show ?thesis
  proof (elim disjE exE)
    assume "?W = []"
    then show ?thesis by simp
  next
    assume "?W = [?L]"
    with L show ?thesis by simp
  next
    fix x
    assume "?W = ?L # catch_writes (call_record k opt c) x"
    with L C [of x] show ?thesis by simp
  qed
qed

lemma complete_writes_ok:
  assumes "find (\<lambda>g. pf_promise g = p) (inflight c) = Some f"
  shows "\<forall>e \<in> set (written_since c (complete now p r c)).
           fst e = pf_key f \<and> staleTime (snd e) = pf_staleTime f \<and>
           status (snd e) \<noteq> Loading \<and> state_ok (snd e)"
proof -
  let ?S = "\<lambda>d. (pf_key f, success_state d now (pf_staleTime f))"
  let ?W = "written_since c (complete now p r c)"
  have S: "fst (?S d) = pf_key f \<and> staleTime (snd (?S d)) = pf_staleTime f \<and>
           status (snd (?S d)) \<noteq> Loading \<and> state_ok (snd (?S d))" for d
    by (simp add: success_state_def state_ok_def)
  have C: "\<forall>e \<in> set (catch_writes f x).
      fst e = pf_key f \<and> staleTime (snd e) = pf_staleTime f \<and> status (snd e) \<noteq> Loading \<and>
      state_ok (snd e)" for x
    using catch_writes_facts [of f x] by simp
  have "(\<exists>x. ?W = catch_writes f x) \<or> (\<exists>d. ?W = [?S d]) \<or>
        (\<exists>d x. ?W = ?S d # catch_writes f x)"
    using complete_follows [of c now p r] assms
    by (auto split: option.splits fetch_result.splits)
  then show ?thesis
  proof (elim disjE exE)
    fix x
    assume "?W = catch_writes f x"
    with C [of x] show ?thesis by simp
  next
    fix d
    assume "?W = [?S d]"
    with S [of d] show ?thesis by simp
  next
    fix d x
    assume "?W = ?S d # catch_writes f x"
    with S [of d] C [of x] show ?thesis by simp
  qed
qed


lemma fetchQuery_states_ok:
  "states_ok c \<Longrightarrow> states_ok (snd (fetchQuery now k fn opt c))"
  using follows_states_ok [of c "snd (fetchQuery now k fn opt c)"]
    fetchQuery_follows [of c now k fn opt] fetchQuery_writes_ok [of c now k fn opt]
  by blast

lemma complete_states_ok:
  assumes "states_ok c"
  shows "states_ok (complete now p r c)"
proof (cases "find (\<lambda>g. pf_promise g = p) (inflight c)")
  case None
  then show ?thesis using assms by (simp add: complete_def)
next
  case (Some f)
  from complete_writes_ok [OF Some, of now r]
  have "\<forall>e \<in> set (written_since c (complete now p r c)). state_ok (snd e)" by blast
  from follows_states_ok [OF _ this assms] complete_follows [of c now p r] show ?thesis by blast
qed

lemma invalidateQuery_states_ok:
  assumes "states_ok c"
  shows "states_ok (invalidateQuery now k c)"
proof (cases rule: invalidateQuery_cases [of c k now])
  case idle
  with assms show ?thesis by simp
next
  case (refetch q fn)
  have "states_ok (c\<lparr>queries := (queries c)(k := None)\<rparr>)"
    using assms by (auto simp: states_ok_def)
  from fetchQuery_states_ok [OF this] refetch(3) show ?thesis by simp
qed

lemma step_states_ok: "states_ok c \<Longrightarrow> states_ok (step x c)"
proof (cases x)
  case (Subscribe k cb)
  then show "states_ok c \<Longrightarrow> ?thesis" by (simp add: states_ok_def)
next
  case (Unsubscribe k cb)
  then show "states_ok c \<Longrightarrow> ?thesis" by (simp add: states_ok_def)
qed (simp_all add: fetchQuery_states_ok invalidateQuery_states_ok complete_states_ok)

lemma run_states_ok: "states_ok c \<Longrightarrow> states_ok (run xs c)"
  by (induction xs arbitrary: c) (simp_all add: step_states_ok)

lemma settled_state_facts:
  assumes "settled_state now f r = Some s"
  shows "status s = Success \<or> status s = Error" "waiter_outcome s = outcome_of r" "lands r"
proof -
  have "(status s = Success \<or> status s = Error) \<and> waiter_outcome s = outcome_of r \<and> lands r"
  proof (cases r)
    case (Resolves d)
    with assms show ?thesis
      by (auto simp: settled_state_def success_state_def waiter_outcome_def)
  next
    case (Rejects x)
    with assms show ?thesis
      by (cases x)
         (auto simp: settled_state_def error_state_def waiter_outcome_def split: sum.splits)
  qed
  then show "status s = Success \<or> status s = Error" "waiter_outcome s = outcome_of r" "lands r"
    by simp_all
qed


lemma resume_quiet:
  assumes "settled_state now f r = Some s" "setQueryState (pf_key f) s c = (None, c1)"
  shows "resume now f r c = settle (pf_promise f) (outcome_of r) c1"
proof (cases r)
  case (Resolves d)
  with assms show ?thesis by (simp add: resume_def settled_state_def)
next
  case (Rejects x)
  with assms show ?thesis
    by (auto simp: resume_def catch_block_def settled_state_def split: sum.splits)
qed

lemma resume_unprintable:
  assumes "settled_state now f r = None"
  shows "resume now f r c = settle (pf_promise f) (outcome_of r) c"
proof (cases r)
  case (Resolves d)
  with assms show ?thesis by (simp add: settled_state_def)
next
  case (Rejects x)
  with assms show ?thesis
    by (auto simp: resume_def catch_block_def settled_state_def split: sum.splits)
qed

lemma complete_quiet:
  assumes inv: "ids_below c"
    and found: "find (\<lambda>g. pf_promise g = p) (inflight c) = Some f"
    and quiet: "quiet (pf_key f) c"
    and st: "settled_state now f r = Some s"
  shows "queries (complete now p r c) = (queries c)(pf_key f \<mapsto> s)"
    and "trace (complete now p r c) =
           trace c @ Stored (pf_key f) s # Notified (pf_key f) #
             map (Called (pf_key f)) (listeners_of (pf_key f) c)"
    and "promises (complete now p r c) p = Some (outcome_of r)"
    and "\<And>p'. Waiter (pf_key f) p' \<in> set (listeners_of (pf_key f) c) \<Longrightarrow> promises c p' = None \<Longrightarrow>
           promises (complete now p r c) p' = Some (outcome_of r) \<and>
           Waiter (pf_key f) p' \<notin> set (listeners_of (pf_key f) (complete now p r c))"
    and "inflight (complete now p r c) = filter (\<lambda>g. pf_promise g \<noteq> p) (inflight c)"
proof -
  let ?k = "pf_key f"
  let ?c0 = "c\<lparr>inflight := filter (\<lambda>g. pf_promise g \<noteq> p) (inflight c)\<rparr>"
  note f = find_inflight [OF found]
  have inv0: "ids_below ?c0" using inv by (rule drop_inflight_ids_below)
  have q0: "\<forall>l \<in> set (listeners_of ?k ?c0). \<not> is_thrower l"
    using quiet by (simp add: quiet_def)
  obtain x c1 where set: "setQueryState ?k s ?c0 = (x, c1)"
    by (cases "setQueryState ?k s ?c0") auto
  from setQueryState_quiet [OF set q0]
  have x: "x = None"
    and tr: "trace c1 = trace c @ Stored ?k s # Notified ?k # map (Called ?k) (listeners_of ?k c)"
    by simp_all
  from set x have set': "setQueryState ?k s ?c0 = (None, c1)" by simp
  have res: "complete now p r c = settle p (outcome_of r) c1"
    using resume_quiet [OF st set'] f(2) by (simp add: complete_found [OF found])
  note rel = setQueryState_rel [OF set]
  show "queries (complete now p r c) = (queries c)(?k \<mapsto> s)" using res rel by simp
  show "trace (complete now p r c) =
           trace c @ Stored ?k s # Notified ?k # map (Called ?k) (listeners_of ?k c)"
    using res tr by simp
  show "inflight (complete now p r c) = filter (\<lambda>g. pf_promise g \<noteq> p) (inflight c)"
    using res rel by simp
  have pend: "promises c p = None" "\<forall>k'. Waiter k' p \<notin> set (listeners_of ?k c)"
    using ids_below_inflight [OF inv f(1)] f(2) by simp_all
  from setQueryState_promises_other [OF set, of p] pend
  have "promises c1 p = None" by simp
  with res show "promises (complete now p r c) p = Some (outcome_of r)"
    by (simp add: promises_settle)
  fix p'
  assume w: "Waiter ?k p' \<in> set (listeners_of ?k c)" "promises c p' = None"
  from setQueryState_settles_waiter [OF set settled_state_facts(1) [OF st] q0 _ _ inv0, of p'] w
  have "promises c1 p' = Some (outcome_of r)" "Waiter ?k p' \<notin> set (listeners_of ?k c1)"
    by (simp_all add: settled_state_facts(2) [OF st])
  with res show "promises (complete now p r c) p' = Some (outcome_of r) \<and>
           Waiter ?k p' \<notin> set (listeners_of ?k (complete now p r c))"
    by (simp add: promises_settle)
qed

lemma complete_unprintable:
  assumes inv: "ids_below c"
    and found: "find (\<lambda>g. pf_promise g = p) (inflight c) = Some f"
    and st: "settled_state now f r = None"
  shows "queries (complete now p r c) = queries c"
    and "promises (complete now p r c) p = Some (outcome_of r)"
    and "listeners (complete now p r c) = listeners c"
    and "trace (complete now p r c) = trace c"
proof -
  let ?c0 = "c\<lparr>inflight := filter (\<lambda>g. pf_promise g \<noteq> p) (inflight c)\<rparr>"
  note f = find_inflight [OF found]
  have res: "complete now p r c = settle p (outcome_of r) ?c0"
    using resume_unprintable [OF st] f(2) by (simp add: complete_found [OF found])
  from ids_below_inflight(2) [OF inv f(1)] f(2) have "promises c p = None" by simp
  with res show "queries (complete now p r c) = queries c"
    "promises (complete now p r c) p = Some (outcome_of r)"
    "listeners (complete now p r c) = listeners c"
    "trace (complete now p r c) = trace c"
    by (simp_all add: promises_settle)
qed

lemma fetchQuery_inflight_subset:
  "set (inflight (snd (fetchQuery now k fn opt c))) \<subseteq> insert (call_record k opt c) (set (inflight c))"
  using fetchQuery_frame [of now k fn opt c] by simp

lemma complete_inflight_subset: "set (inflight (complete now p r c)) \<subseteq> set (inflight c)"
  using complete_frame [of now p r c] by simp

lemma complete_next_promise: "next_promise (complete now p r c) = next_promise c"
  using complete_frame [of now p r c] by simp

lemma run_step_old:
  assumes "g \<in> set (inflight (step x c))" "pf_promise g < next_promise c"
  shows "g \<in> set (inflight c)"
proof (cases x)
  case (FetchQuery now k fn opt)
  with assms fetchQuery_inflight_subset [of now k fn opt c] show ?thesis
    by (auto simp: call_record_fields)
next
  case (InvalidateQuery now k)
  show ?thesis
  proof (cases rule: invalidateQuery_cases [of c k now])
    case idle
    with assms InvalidateQuery show ?thesis by simp
  next
    case (refetch q fn)
    with assms InvalidateQuery
      fetchQuery_inflight_subset [of now k fn "Some (staleTime q)" "c\<lparr>queries := (queries c)(k := None)\<rparr>"]
    show ?thesis by (auto simp: call_record_fields)
  qed
next
  case (Subscribe k cb)
  with assms show ?thesis by simp
next
  case (Unsubscribe k cb)
  with assms show ?thesis by simp
next
  case (Complete now p r)
  with assms complete_inflight_subset [of now p r c] show ?thesis by auto
qed

lemma invalidateQuery_next_promise:
  "next_promise c \<le> next_promise (invalidateQuery now k c)"
  by (cases rule: invalidateQuery_cases [of c k now]) (simp_all add: fetchQuery_next_promise)

lemma step_next_promise: "next_promise c \<le> next_promise (step x c)"
  by (cases x)
     (simp_all add: fetchQuery_next_promise invalidateQuery_next_promise complete_next_promise)

lemma run_next_promise: "next_promise c \<le> next_promise (run xs c)"
proof (induction xs arbitrary: c)
  case Nil
  then show ?case by simp
next
  case (Cons x xs)
  from Cons.IH [of "step x c"] step_next_promise [of c x] show ?case by simp
qed

lemma run_inflight_old:
  "g \<in> set (inflight (run xs c)) \<Longrightarrow> pf_promise g < next_promise c \<Longrightarrow> g \<in> set (inflight c)"
proof (induction xs arbitrary: c)
  case Nil
  then show ?case by simp
next
  case (Cons x xs)
  from Cons.prems(2) step_next_promise [of c x]
  have "pf_promise g < next_promise (step x c)" by simp
  from Cons.IH [OF _ this] Cons.prems(1) have "g \<in> set (inflight (step x c))" by simp
  from run_step_old [OF this Cons.prems(2)] show ?case .
qed

lemma suspended_call_record:
  assumes inv: "ids_below c0"
    and mem: "next_promise c0 \<in> pf_promise ` set (inflight (run xs (snd (fetchQuery now0 k fn opt c0))))"
  shows "find (\<lambda>g. pf_promise g = next_promise c0)
           (inflight (run xs (snd (fetchQuery now0 k fn opt c0)))) = Some (call_record k opt c0)"
proof -
  let ?c1 = "snd (fetchQuery now0 k fn opt c0)"
  let ?c2 = "run xs ?c1"
  from mem obtain f where f: "find (\<lambda>g. pf_promise g = next_promise c0) (inflight ?c2) = Some f"
    by (cases "find (\<lambda>g. pf_promise g = next_promise c0) (inflight ?c2)")
       (auto simp: find_None_iff)
  note ff = find_inflight [OF f]
  from ff(2) have "pf_promise f < next_promise ?c1" by (simp add: fetchQuery_next_promise)
  from run_inflight_old [OF ff(1) this] have "f \<in> set (inflight ?c1)" .
  with fetchQuery_inflight_subset [of now0 k fn opt c0] ff(2) ids_below_inflight(1) [OF inv, of f]
  have "f = call_record k opt c0" by auto
  with f show ?thesis by simp
qed

lemma fetchQuery_keeps_success:
  assumes "queries (snd (fetchQuery now k' fn opt c)) k = Some q" "status q = Success"
  shows "queries c k = Some q"
proof -
  let ?c' = "snd (fetchQuery now k' fn opt c)"
  from fetchQuery_follows [of c now k' fn opt] assms(1)
  have "apply_writes (written_since c ?c') (queries c) k = Some q" by (simp add: follows_def)
  from apply_writes_lookup [OF this]
  show ?thesis
  proof
    assume "(k, q) \<in> set (written_since c ?c')"
    with fetchQuery_writes_ok [of c now k' fn opt] have "status q \<noteq> Success" by fastforce
    with assms(2) show ?thesis by simp
  qed
qed

lemma step_success:
  assumes "queries (step x c) k = Some q" "status q = Success"
  shows "queries c k = Some q \<or>
         (\<exists>now p d f. x = Complete now p (Resolves d) \<and>
            find (\<lambda>g. pf_promise g = p) (inflight c) = Some f \<and> pf_key f = k \<and>
            q = success_state d now (pf_staleTime f))"
proof (cases x)
  case (FetchQuery now k' fn opt)
  with assms fetchQuery_keeps_success [of now k' fn opt c k q] show ?thesis by simp
next
  case (InvalidateQuery now k')
  show ?thesis
  proof (cases rule: invalidateQuery_cases [of c k' now])
    case idle
    with assms InvalidateQuery show ?thesis by simp
  next
    case (refetch q' fn)
    let ?c0 = "c\<lparr>queries := (queries c)(k' := None)\<rparr>"
    from refetch(3) assms InvalidateQuery
    have "queries (snd (fetchQuery now k' fn (Some (staleTime q')) ?c0)) k = Some q" by simp
    from fetchQuery_keeps_success [OF this assms(2)] have "queries ?c0 k = Some q" .
    then have "queries c k = Some q" by (cases "k = k'") simp_all
    then show ?thesis ..
  qed
next
  case (Subscribe k' cb)
  with assms show ?thesis by (simp add: subscribe_def Let_def)
next
  case (Unsubscribe k' cb)
  with assms show ?thesis by simp
next
  case (Complete now p r)
  let ?c' = "complete now p r c"
  note cf = complete_follows [of c now p r]
  from cf assms(1) Complete
  have look: "apply_writes (written_since c ?c') (queries c) k = Some q" by (simp add: follows_def)
  show ?thesis
  proof (cases "find (\<lambda>g. pf_promise g = p) (inflight c)")
    case None
    with cf look have "queries c k = Some q" by simp
    then show ?thesis ..
  next
    case (Some f)
    from apply_writes_lookup [OF look]
    show ?thesis
    proof
      assume "queries c k = Some q"
      then show ?thesis ..
    next
      assume mem: "(k, q) \<in> set (written_since c ?c')"
      have err: "(k, q) \<notin> set (catch_writes f z)" for z
        using assms(2) by (auto simp: catch_writes_def error_state_def split: sum.splits)
      show ?thesis
      proof (cases r)
        case (Rejects z)
        with cf Some mem err show ?thesis by simp
      next
        case (Resolves d)
        with cf Some mem err
        have "(k, q) = (pf_key f, success_state d now (pf_staleTime f))"
          by (auto split: option.splits)
        with Complete Resolves Some show ?thesis by simp
      qed
    qed
  qed
qed

lemma run_success:
  "queries (run ops new_client) k = Some q \<Longrightarrow> status q = Success \<Longrightarrow>
     \<exists>pre now p d f post.
        ops = pre @ Complete now p (Resolves d) # post \<and>
        find (\<lambda>g. pf_promise g = p) (inflight (run pre new_client)) = Some f \<and>
        pf_key f = k \<and> q = success_state d now (pf_staleTime f)"
proof (induction ops arbitrary: q rule: rev_induct)
  case Nil
  then show ?case by (simp add: new_client_def)
next
  case (snoc x ops)
  let ?c = "run ops (new_client :: 'a QueryClient)"
  from snoc.prems(1) have "queries (step x ?c) k = Some q" by (simp add: run_append)
  from step_success [OF this snoc.prems(2)]
  show ?case
  proof
    assume "queries ?c k = Some q"
    from snoc.IH [OF this snoc.prems(2)]
    obtain pre now p d f post where
      "ops = pre @ Complete now p (Resolves d) # post"
      "find (\<lambda>g. pf_promise g = p) (inflight (run pre new_client)) = Some f"
      "pf_key f = k" "q = success_state d now (pf_staleTime f)"
      by auto
    then have "ops @ [x] = pre @ Complete now p (Resolves d) # (post @ [x]) \<and>
        find (\<lambda>g. pf_promise g = p) (inflight (run pre new_client)) = Some f \<and>
        pf_key f = k \<and> q = success_state d now (pf_staleTime f)" by simp
    then show ?case by (intro exI)
  next
    assume "\<exists>now p d f. x = Complete now p (Resolves d) \<and>
            find (\<lambda>g. pf_promise g = p) (inflight ?c) = Some f \<and> pf_key f = k \<and>
            q = success_state d now (pf_staleTime f)"
    then obtain now p d f where
      "x = Complete now p (Resolves d)" "find (\<lambda>g. pf_promise g = p) (inflight ?c) = Some f"
      "pf_key f = k" "q = success_state d now (pf_staleTime f)" by auto
    then have "ops @ [x] = ops @ Complete now p (Resolves d) # [] \<and>
        find (\<lambda>g. pf_promise g = p) (inflight (run ops new_client)) = Some f \<and>
        pf_key f = k \<and> q = success_state d now (pf_staleTime f)" by simp
    then show ?case by (intro exI)
  qed
qed




text \<open>
  What the completion of a suspended call does, for the call made on \<open>c0\<close> and still
  suspended in \<open>c2\<close>.
\<close>

lemma suspended_success:
  assumes inv0: "ids_below c0"
    and c2: "c2 = run ops2 (snd (fetchQuery now0 k fn opt c0))"
    and mem: "next_promise c0 \<in> pf_promise ` set (inflight c2)"
  shows "hd (written_since c2 (complete now (next_promise c0) (Resolves v) c2)) =
           (k, success_state v now (case opt of None \<Rightarrow> 0 | Some s \<Rightarrow> s)) \<and>
         written_since c2 (complete now (next_promise c0) (Resolves v) c2) \<noteq> [] \<and>
         (quiet k c2 \<longrightarrow>
            queries (complete now (next_promise c0) (Resolves v) c2) =
              (queries c2)(k \<mapsto> success_state v now (case opt of None \<Rightarrow> 0 | Some s \<Rightarrow> s)) \<and>
            trace (complete now (next_promise c0) (Resolves v) c2) =
              trace c2 @
              [Stored k (success_state v now (case opt of None \<Rightarrow> 0 | Some s \<Rightarrow> s)),
               Notified k] @ map (Called k) (listeners_of k c2) \<and>
            promises (complete now (next_promise c0) (Resolves v) c2) (next_promise c0) =
              Some (Resolved v))"
proof -
  let ?p = "next_promise c0"
  let ?f = "call_record k opt c0 :: 'a PendingFetch"
  from inv0 c2 have inv2: "ids_below c2" by (simp add: run_ids_below fetchQuery_ids_below)
  from suspended_call_record [OF inv0] mem c2
  have found: "find (\<lambda>g. pf_promise g = ?p) (inflight c2) = Some ?f" by simp
  from complete_follows [of c2 now ?p "Resolves v"] found
  have first: "hd (written_since c2 (complete now ?p (Resolves v) c2)) =
      (k, success_state v now (case opt of None \<Rightarrow> 0 | Some s \<Rightarrow> s))"
    "written_since c2 (complete now ?p (Resolves v) c2) \<noteq> []"
    by simp_all
  have rest: "queries (complete now ?p (Resolves v) c2) =
      (queries c2)(k \<mapsto> success_state v now (case opt of None \<Rightarrow> 0 | Some s \<Rightarrow> s)) \<and>
    trace (complete now ?p (Resolves v) c2) =
      trace c2 @ [Stored k (success_state v now (case opt of None \<Rightarrow> 0 | Some s \<Rightarrow> s)),
                  Notified k] @ map (Called k) (listeners_of k c2) \<and>
    promises (complete now ?p (Resolves v) c2) ?p = Some (Resolved v)" if "quiet k c2"
  proof -
    from that have q: "quiet (pf_key ?f) c2" by simp
    have st: "settled_state now ?f (Resolves v) =
        Some (success_state v now (case opt of None \<Rightarrow> 0 | Some s \<Rightarrow> s))"
      by (simp add: settled_state_def)
    note cq = complete_quiet [OF inv2 found q st]
    from cq(1,2,3) show ?thesis by simp
  qed
  from first rest show ?thesis by simp
qed


lemma ids_below_clear: "ids_below c \<Longrightarrow> ids_below (c\<lparr>queries := m\<rparr>)"
  by (simp add: ids_below_def)

text \<open>Operations on one key leave the other keys alone.\<close>

lemma confined_refl: "confined k' pid c c"
  by (auto simp: confined_def)






lemma confined_clear: "confined k' pid c (c\<lparr>queries := (queries c)(k' := None)\<rparr>)"
  by (auto simp: confined_def)


























text \<open>The definitions that evaluate a concrete history.\<close>

lemmas eval_defs = new_client_def fetchQuery_def setQueryState_def notify_def loading_state_def subscribe_def
  complete_def resume_def success_state_def error_state_def catch_block_def waiter_def unsubscribe_def settle_def
  invalidateQuery_def listeners_of_def Let_def
section \<open>Claims\<close>

subsection \<open>C6: delivery of a notification\<close>

text \<open>
  C6, as amended. \<open>notify(k)\<close> calls the listeners registered for \<open>k\<close> synchronously
  and in registration order (\<open>subscribe\<close> puts a new listener last), up to and including
  the first one that throws; the value thrown leaves \<open>notify\<close>. When no registered
  listener throws, every listener registered for \<open>k\<close> is called, in registration order.
\<close>

theorem notify_delivers_until_throw:
  "trace (snd (notify k c)) =
     trace c @ Notified k # map (Called k) (upto_first_throw (listeners_of k c)) \<and>
   fst (notify k c) = first_thrown (listeners_of k c) \<and>
   ((\<forall>l \<in> set (listeners_of k c). \<not> is_thrower l) \<longrightarrow>
      trace (snd (notify k c)) = trace c @ Notified k # map (Called k) (listeners_of k c) \<and>
      fst (notify k c) = None) \<and>
   (l \<notin> set (listeners_of k c) \<longrightarrow>
      listeners_of k (snd (subscribe k l c)) = listeners_of k c @ [l])"
proof -
  obtain x c' where n: "notify k c = (x, c')" by (cases "notify k c") auto
  from notify_trace [OF n] n show ?thesis
    by (auto dest: no_thrower_all)
qed

text \<open>
  C6 as stated fails: with a throwing listener registered before an observer, one
  \<open>notify\<close> calls the first and never the second.
\<close>

theorem notify_isolation_counterexample:
  "listeners c6_client ''a'' =
     Some [External (Thrower 0 (NonError ''oops'')), External (Observer 1)] \<and>
   trace (snd (notify ''a'' c6_client)) =
     [Notified ''a'', Called ''a'' (External (Thrower 0 (NonError ''oops'')))] \<and>
   fst (notify ''a'' c6_client) = Some (NonError ''oops'')"
  by (simp add: c6_client_def eval_defs)

theorem notify_delivers_until_throw_witness:
  "trace (snd (notify ''a'' (run [Subscribe ''a'' (Observer 0), Subscribe ''a'' (Observer 1)] (new_client :: nat QueryClient)))) =
     [Notified ''a'', Called ''a'' (External (Observer 0)), Called ''a'' (External (Observer 1))]"
  using notify_delivers_until_throw [of "''a''" "run [Subscribe ''a'' (Observer 0), Subscribe ''a'' (Observer 1)] (new_client :: nat QueryClient)"]
  by (simp add: eval_defs)
subsection \<open>C9: the function returned by subscribe\<close>

text \<open>
  C9. The function returned by \<open>subscribe(k, l)\<close>, called on any client, removes
  exactly \<open>l\<close> from the listeners of \<open>k\<close> and keeps the others in their order; the
  listeners of every other key and all other fields stay as they are; when the removal
  leaves no listener for \<open>k\<close> the entry of \<open>k\<close> is deleted; calling it twice is calling it
  once, and calling it when \<open>k\<close> has no entry changes nothing.
\<close>

theorem unsubscribe_exact_idempotent:
  "listeners_of k (fst (subscribe k l c0) c) = removeAll l (listeners_of k c) \<and>
   set (listeners_of k (fst (subscribe k l c0) c)) = set (listeners_of k c) - {l} \<and>
   (\<forall>k'. k' \<noteq> k \<longrightarrow> listeners (fst (subscribe k l c0) c) k' = listeners c k') \<and>
   (set (listeners_of k c) \<subseteq> {l} \<longrightarrow> listeners (fst (subscribe k l c0) c) k = None) \<and>
   queries (fst (subscribe k l c0) c) = queries c \<and>
   queryFns (fst (subscribe k l c0) c) = queryFns c \<and>
   promises (fst (subscribe k l c0) c) = promises c \<and>
   inflight (fst (subscribe k l c0) c) = inflight c \<and>
   trace (fst (subscribe k l c0) c) = trace c \<and>
   fst (subscribe k l c0) (fst (subscribe k l c0) c) = fst (subscribe k l c0) c \<and>
   (listeners c k = None \<longrightarrow> fst (subscribe k l c0) c = c) \<and>
   l \<in> set (listeners_of k (snd (subscribe k l c0)))"
proof -
  have "set (listeners_of k c) \<subseteq> {l} \<longrightarrow> listeners (unsubscribe k l c) k = None"
    by (auto simp: unsubscribe_def listeners_of_def removeAll_filter_not_eq filter_empty_conv
          split: option.split)
  moreover have "\<forall>k'. k' \<noteq> k \<longrightarrow> listeners (unsubscribe k l c) k' = listeners c k'"
    by (simp add: unsubscribe_def split: option.split)
  moreover have "listeners c k = None \<longrightarrow> unsubscribe k l c = c"
    by (simp add: unsubscribe_def)
  ultimately show ?thesis
    by (simp add: unsubscribe_idem)
qed

theorem unsubscribe_exact_idempotent_witness:
  "listeners (fst (subscribe ''a'' (External (Observer 0)) (new_client :: nat QueryClient)) c9_client) ''a'' =
     Some [External (Observer 1)] \<and>
   listeners (fst (subscribe ''a'' (External (Observer 0)) (new_client :: nat QueryClient)) c9_client) ''b'' =
     Some [External (Observer 0)] \<and>
   listeners (fst (subscribe ''b'' (External (Observer 0)) (new_client :: nat QueryClient)) c9_client) ''b'' = None \<and>
   fst (subscribe ''c'' (External (Observer 0)) (new_client :: nat QueryClient)) c9_client = c9_client"
proof -
  have b: "set (listeners_of ''b'' c9_client) \<subseteq> {External (Observer 0)}"
    by (simp add: c9_client_def eval_defs)
  have c: "listeners c9_client ''c'' = None"
    by (simp add: c9_client_def eval_defs)
  have a: "listeners_of ''a'' c9_client = [External (Observer 0), External (Observer 1)]"
    "listeners c9_client ''b'' = Some [External (Observer 0)]"
    by (simp_all add: c9_client_def eval_defs)
  have nn: "listeners (fst (subscribe ''a'' (External (Observer 0)) (new_client :: nat QueryClient)) c9_client) ''a'' \<noteq> None"
    by (simp add: c9_client_def eval_defs)
  show ?thesis
    using unsubscribe_exact_idempotent [of "''a''" "External (Observer 0)" new_client c9_client]
      unsubscribe_exact_idempotent [of "''b''" "External (Observer 0)" new_client c9_client]
      unsubscribe_exact_idempotent [of "''c''" "External (Observer 0)" new_client c9_client]
      a b c nn
    by (auto simp: listeners_of_def split: option.splits)
qed

subsection \<open>C8: invalidateQuery\<close>

text \<open>
  C8. \<open>invalidateQuery(k)\<close> changes nothing when \<open>k\<close> has no stored state or no
  remembered fetch function. When it has both, the result is that of
  \<open>fetchQuery(k, fn, {staleTime: state.staleTime})\<close> on the client without the entry of
  \<open>k\<close>, where \<open>fn\<close> is the remembered function, and the client does change. After any
  \<open>fetchQuery(k, fn', ...)\<close>, whichever branch it takes, the remembered function is \<open>fn'\<close>.
\<close>

theorem invalidateQuery_contract:
  "(queries c k = None \<or> queryFns c k = None \<longrightarrow> invalidateQuery now k c = c) \<and>
   (\<forall>q fn. queries c k = Some q \<and> queryFns c k = Some fn \<longrightarrow>
      invalidateQuery now k c =
        snd (fetchQuery now k fn (Some (staleTime q)) (c\<lparr>queries := (queries c)(k := None)\<rparr>)) \<and>
      invalidateQuery now k c \<noteq> c) \<and>
   queryFns (snd (fetchQuery now' k fn' opt c)) k = Some fn'"
proof -
  have "invalidateQuery now k c \<noteq> c" if "queries c k = Some q" "queryFns c k = Some fn" for q fn
  proof
    assume "invalidateQuery now k c = c"
    then have "next_promise (invalidateQuery now k c) = next_promise c" by simp
    with that show False by (simp add: invalidateQuery_def fetchQuery_next_promise)
  qed
  then show ?thesis
    by (auto simp: invalidateQuery_def fetchQuery_queryFns split: option.splits)
qed

theorem invalidateQuery_contract_witness:
  "invalidateQuery 20 ''b'' c8_client = c8_client \<and>
   inflight (invalidateQuery 20 ''a'' c8_client) =
     [\<lparr>pf_promise = 2, pf_key = ''a'', pf_staleTime = 5, pf_existingQuery = None\<rparr>] \<and>
   trace (invalidateQuery 20 ''a'' c8_client) = trace c8_client @
     [Stored ''a'' \<lparr>data = Undefined, status = Loading, error = None, lastFetchedAt = 0, staleTime = 5\<rparr>,
      Notified ''a'', Fetched ''a'' (Asynchronous 1)]"
proof -
  have b: "queries c8_client ''b'' = None" by (simp add: c8_client_def eval_defs)
  have a: "queries c8_client ''a'' =
      Some \<lparr>data = Value 7, status = Success, error = None, lastFetchedAt = 10, staleTime = 5\<rparr>"
    "queryFns c8_client ''a'' = Some (Asynchronous 1)"
    by (simp_all add: c8_client_def eval_defs)
  have n: "next_promise c8_client = 2" "inflight c8_client = []"
    "listeners c8_client ''a'' = None"
    by (simp_all add: c8_client_def eval_defs)
  show ?thesis
    using invalidateQuery_contract [of c8_client "''b''" 20] b
      invalidateQuery_contract [of c8_client "''a''" 20] a n
    by (simp add: fetchQuery_def Let_def setQueryState_def notify_def loading_state_def)
qed
subsection \<open>C7: what a stored state looks like\<close>

text \<open>
  C7, as amended. In every client reached from a new one by \<open>fetchQuery\<close>,
  \<open>invalidateQuery\<close>, \<open>subscribe\<close>, unsubscription and the completion of fetches:

    \<^item> a stored state with status \<open>success\<close> has no error, and its \<open>data\<close> is the value
      with which a fetch of that key resolved: the history contains the completion, at the
      time held in \<open>lastFetchedAt\<close>, of a suspended call for the key, and \<open>data\<close> is the
      value \<open>d\<close> of that completion, whatever it is (so \<open>data\<close> is present unless the fetch
      function resolved with \<open>undefined\<close>);
    \<^item> a stored state with status \<open>error\<close> has an error;
    \<^item> a stored state with status \<open>loading\<close> has no error;
    \<^item> no stored state is \<open>idle\<close>.
\<close>

theorem stored_state_invariant:
  "queries (run ops new_client) k = Some q \<Longrightarrow>
     (status q = Success \<longrightarrow>
        error q = None \<and>
        (\<exists>pre now p d f post.
           ops = pre @ Complete now p (Resolves d) # post \<and>
           find (\<lambda>g. pf_promise g = p) (inflight (run pre new_client)) = Some f \<and>
           pf_key f = k \<and>
           data q = d \<and> lastFetchedAt q = now \<and> staleTime q = pf_staleTime f)) \<and>
     (status q = Error \<longrightarrow> error q \<noteq> None) \<and>
     (status q = Loading \<longrightarrow> error q = None) \<and>
     status q \<noteq> Idle"
proof -
  assume q: "queries (run ops new_client) k = Some q"
  have "states_ok (new_client :: 'a QueryClient)" by (simp add: states_ok_def new_client_def)
  then have "states_ok (run ops (new_client :: 'a QueryClient))" by (rule run_states_ok)
  with q have ok: "state_ok q" by (simp add: states_ok_def)
  have "\<exists>pre now p d f post.
           ops = pre @ Complete now p (Resolves d) # post \<and>
           find (\<lambda>g. pf_promise g = p) (inflight (run pre new_client)) = Some f \<and>
           pf_key f = k \<and>
           data q = d \<and> lastFetchedAt q = now \<and> staleTime q = pf_staleTime f"
    if "status q = Success"
  proof -
    from run_success [OF q that]
    obtain pre now p d f post where
      "ops = pre @ Complete now p (Resolves d) # post"
      "find (\<lambda>g. pf_promise g = p) (inflight (run pre new_client)) = Some f"
      "pf_key f = k" "q = success_state d now (pf_staleTime f)"
      by auto
    then have "ops = pre @ Complete now p (Resolves d) # post \<and>
           find (\<lambda>g. pf_promise g = p) (inflight (run pre new_client)) = Some f \<and>
           pf_key f = k \<and>
           data q = d \<and> lastFetchedAt q = now \<and> staleTime q = pf_staleTime f"
      by (simp add: success_state_def)
    then show ?thesis by (intro exI)
  qed
  with ok show ?thesis by (simp add: state_ok_def)
qed

text \<open>
  C7 as stated fails: a fetch function that resolves with \<open>undefined\<close> leaves a state
  with status \<open>success\<close> and no data.
\<close>

theorem success_without_data_counterexample:
  "queries c7_client ''a'' =
     Some \<lparr>data = Undefined, status = Success, error = None, lastFetchedAt = 1, staleTime = 0\<rparr>"
  by (simp add: c7_client_def eval_defs)

text \<open>The invariant at a key whose fetch resolved with the value 7 at time 100.\<close>

theorem stored_state_invariant_witness:
  "queries (run [FetchQuery 0 ''a'' (Asynchronous 0) None, Complete 100 0 (Resolves (Value 7))]
             (new_client :: nat QueryClient)) ''a'' =
     Some \<lparr>data = Value 7, status = Success, error = None, lastFetchedAt = 100, staleTime = 0\<rparr> \<and>
   (\<exists>pre now p d f post.
      [FetchQuery 0 ''a'' (Asynchronous 0) None, Complete 100 0 (Resolves (Value 7))] =
        pre @ Complete now p (Resolves d) # post \<and>
      find (\<lambda>g. pf_promise g = p) (inflight (run pre (new_client :: nat QueryClient))) = Some f \<and>
      pf_key f = ''a'' \<and> Value 7 = d \<and> (100 :: int) = now \<and> (0 :: int) = pf_staleTime f)"
proof -
  have q: "queries (run [FetchQuery 0 ''a'' (Asynchronous 0) None, Complete 100 0 (Resolves (Value 7))]
             (new_client :: nat QueryClient)) ''a'' =
     Some \<lparr>data = Value 7, status = Success, error = None, lastFetchedAt = 100, staleTime = 0\<rparr>"
    by (simp add: eval_defs)
  from stored_state_invariant [OF q] q show ?thesis by simp
qed

subsection \<open>C10: the stored staleTime\<close>

text \<open>
  C10. Every state \<open>fetchQuery(k, fn, {staleTime: s})\<close> writes before its \<open>await\<close> is a
  state for \<open>k\<close> with \<open>staleTime = s\<close>: a \<open>loading\<close> state, and an \<open>error\<close> state when the
  fetch function throws at once; on the fetch path such a state is the state of \<open>k\<close>
  afterwards, and the suspended call keeps \<open>s\<close>. Every state the completion of a
  suspended call writes, whether the fetch succeeded or failed, is a state for its key
  with its \<open>staleTime\<close>, and so is the state of the key afterwards (it writes one
  unless the failure cannot be turned into an \<open>Error\<close>). On a key with a
  \<open>success\<close> state \<open>q\<close>, a call leaves the states and the trace as they are exactly
  when \<open>now - q.lastFetchedAt < q.staleTime\<close>, whatever \<open>staleTime\<close> the call passes.
\<close>

theorem staleTime_last_writer:
  "(\<forall>e \<in> set (written_since c (snd (fetchQuery now k fn opt c))).
      fst e = k \<and> staleTime (snd e) = (case opt of None \<Rightarrow> 0 | Some s \<Rightarrow> s) \<and>
      (status (snd e) = Loading \<or> (\<exists>n x. fn = Throwing n x) \<and> status (snd e) = Error)) \<and>
   ((\<forall>q. queries c k = Some q \<longrightarrow>
        status q \<noteq> Loading \<and> \<not> (status q = Success \<and> now - lastFetchedAt q < staleTime q)) \<longrightarrow>
      (\<exists>q'. queries (snd (fetchQuery now k fn opt c)) k = Some q' \<and>
            staleTime q' = (case opt of None \<Rightarrow> 0 | Some s \<Rightarrow> s) \<and>
            (status q' = Loading \<or> (\<exists>n x. fn = Throwing n x) \<and> status q' = Error)) \<and>
      (first_thrown (listeners_of k c) = None \<longrightarrow>
         (\<forall>n. fn = Asynchronous n \<longrightarrow>
            inflight (snd (fetchQuery now k fn opt c)) =
              inflight c @ [\<lparr>pf_promise = next_promise c, pf_key = k,
                              pf_staleTime = (case opt of None \<Rightarrow> 0 | Some s \<Rightarrow> s),
                              pf_existingQuery = queries c k\<rparr>]))) \<and>
   (find (\<lambda>g. pf_promise g = p) (inflight c) = Some f \<longrightarrow>
      (lands r \<longrightarrow> written_since c (complete now' p r c) \<noteq> []) \<and>
      (\<forall>e \<in> set (written_since c (complete now' p r c)).
         fst e = pf_key f \<and> staleTime (snd e) = pf_staleTime f \<and> status (snd e) \<noteq> Loading) \<and>
      (lands r \<longrightarrow>
         (\<exists>q'. queries (complete now' p r c) (pf_key f) = Some q' \<and>
               staleTime q' = pf_staleTime f))) \<and>
   (\<forall>q. queries c k = Some q \<and> status q = Success \<longrightarrow>
      ((queries (snd (fetchQuery now k fn opt c)) = queries c \<and>
        trace (snd (fetchQuery now k fn opt c)) = trace c) \<longleftrightarrow>
       now - lastFetchedAt q < staleTime q))"
proof -
  let ?st = "case opt of None \<Rightarrow> 0 | Some s \<Rightarrow> s"
  let ?c' = "snd (fetchQuery now k fn opt c)"
  let ?W = "written_since c ?c'"
  let ?L = "(k, loading_state (queries c k) ?st)"
  let ?P = "\<lambda>s. staleTime s = ?st \<and>
      (status s = Loading \<or> (\<exists>n x. fn = Throwing n x) \<and> status s = Error)"
  note fq = fetchQuery_follows [of c now k fn opt]
  have L: "?P (snd ?L)" by (simp add: loading_state_def)
  have C: "\<forall>e \<in> set (catch_writes (call_record k opt c) x). fst e = k \<and> ?P (snd e)"
    if "fn = Throwing n x" for n x
    using catch_writes_facts [of "call_record k opt c" x] that by simp
  have shape: "?W = [] \<and> \<not> starts now k c \<or> ?W = [?L] \<or>
      (\<exists>n x. fn = Throwing n x \<and> ?W = ?L # catch_writes (call_record k opt c) x)"
    using fq by (auto split: option.splits queryFn.splits if_splits)
  have one: "\<forall>e \<in> set ?W. fst e = k \<and> ?P (snd e)"
    using shape
  proof (elim disjE exE conjE)
    assume "?W = []"
    then show ?thesis by simp
  next
    assume "?W = [?L]"
    with L show ?thesis by simp
  next
    fix n x
    assume "fn = Throwing n x" "?W = ?L # catch_writes (call_record k opt c) x"
    with L C [of n x] show ?thesis by simp
  qed
  have two: "\<exists>q'. queries ?c' k = Some q' \<and> ?P q'" if "starts now k c"
  proof -
    from shape that have ne: "?W \<noteq> []" by auto
    from one have "\<forall>e \<in> set ?W. fst e = k" by blast
    from apply_writes_last [OF ne this, of "queries c"] fq
    have "queries ?c' k = Some (snd (last ?W))" by (simp add: follows_def)
    moreover from ne one have "?P (snd (last ?W))" by simp
    ultimately show ?thesis by blast
  qed
  have three: "inflight ?c' = inflight c @ [call_record k opt c]"
    if "starts now k c" "first_thrown (listeners_of k c) = None" "fn = Asynchronous n" for n
  proof (cases rule: fetchQuery_cases [of c k now fn opt])
    case (hit q)
    with that(1) show ?thesis by (simp add: starts_def)
  next
    case (join q)
    with that(1) show ?thesis by (simp add: starts_def)
  next
    case (refused z c2)
    from setQueryState_trace [OF refused(2)] that(2) show ?thesis by simp
  next
    case (suspends m c2)
    from setQueryState_rel [OF suspends(3)] suspends(4) show ?thesis by simp
  next
    case (throws m x c2)
    with that(3) show ?thesis by simp
  qed
  have four: "(lands r \<longrightarrow> written_since c (complete now' p r c) \<noteq> []) \<and>
      (\<forall>e \<in> set (written_since c (complete now' p r c)).
         fst e = pf_key f \<and> staleTime (snd e) = pf_staleTime f \<and> status (snd e) \<noteq> Loading) \<and>
      (lands r \<longrightarrow>
         (\<exists>q'. queries (complete now' p r c) (pf_key f) = Some q' \<and>
               staleTime q' = pf_staleTime f))"
    if found: "find (\<lambda>g. pf_promise g = p) (inflight c) = Some f"
  proof -
    let ?V = "written_since c (complete now' p r c)"
    note cf = complete_follows [of c now' p r]
    from complete_writes_ok [OF found, of now' r]
    have all: "\<forall>e \<in> set ?V. fst e = pf_key f \<and> staleTime (snd e) = pf_staleTime f \<and>
        status (snd e) \<noteq> Loading" by blast
    have ne: "?V \<noteq> []" if "lands r"
      using cf found that
      by (cases r; cases "normalize (case r of Rejects x \<Rightarrow> x)")
         (auto simp: catch_writes_def split: sum.splits thrown.splits elim: printable.elims)
    have "\<exists>q'. queries (complete now' p r c) (pf_key f) = Some q' \<and> staleTime q' = pf_staleTime f"
      if "lands r"
    proof -
      from all have "\<forall>e \<in> set ?V. fst e = pf_key f" by blast
      from apply_writes_last [OF ne [OF that] this, of "queries c"] cf
      have "queries (complete now' p r c) (pf_key f) = Some (snd (last ?V))"
        by (simp add: follows_def)
      moreover from ne [OF that] all have "staleTime (snd (last ?V)) = pf_staleTime f" by simp
      ultimately show ?thesis by blast
    qed
    with all ne show ?thesis by blast
  qed
  have five: "(queries ?c' = queries c \<and> trace ?c' = trace c) \<longleftrightarrow>
       now - lastFetchedAt q < staleTime q"
    if q: "queries c k = Some q \<and> status q = Success" for q
  proof (cases "now - lastFetchedAt q < staleTime q")
    case True
    with q show ?thesis by (simp add: fetchQuery_hit [of c k q])
  next
    case False
    with q have "starts now k c" by (simp add: starts_def)
    from two [OF this] obtain q' where "queries ?c' k = Some q'" "status q' \<noteq> Success"
      by auto
    with q have "queries ?c' k \<noteq> queries c k" by auto
    with False show ?thesis by auto
  qed
  from one two three four five show ?thesis
    by (simp add: starts_iff call_record_def)
qed

theorem staleTime_last_writer_witness:
  "queries c10_client ''a'' =
     Some \<lparr>data = Value 7, status = Success, error = None, lastFetchedAt = 100, staleTime = 50\<rparr> \<and>
   queries (snd (fetchQuery 120 ''a'' (Asynchronous 1) (Some 0) c10_client)) = queries c10_client \<and>
   trace (snd (fetchQuery 120 ''a'' (Asynchronous 1) (Some 0) c10_client)) = trace c10_client \<and>
   queries (snd (fetchQuery 150 ''a'' (Asynchronous 1) (Some 1000) c10_client)) \<noteq> queries c10_client"
proof -
  have q: "queries c10_client ''a'' =
     Some \<lparr>data = Value 7, status = Success, error = None, lastFetchedAt = 100, staleTime = 50\<rparr>"
    by (simp add: c10_client_def eval_defs)
  from staleTime_last_writer [of c10_client 120 "''a''" "Asynchronous 1" "Some 0"] q
  have hit: "queries (snd (fetchQuery 120 ''a'' (Asynchronous 1) (Some 0) c10_client)) = queries c10_client"
    "trace (snd (fetchQuery 120 ''a'' (Asynchronous 1) (Some 0) c10_client)) = trace c10_client"
    by simp_all
  note miss = staleTime_last_writer [of c10_client 150 "''a''" "Asynchronous 1" "Some 1000",
      THEN conjunct2, THEN conjunct1, rule_format, THEN conjunct1]
  have "\<exists>q'. queries (snd (fetchQuery 150 ''a'' (Asynchronous 1) (Some 1000) c10_client)) ''a'' = Some q' \<and>
          staleTime q' = (case Some 1000 of None \<Rightarrow> 0 | Some s \<Rightarrow> s) \<and>
          (status q' = Loading \<or>
           (\<exists>n x. Asynchronous 1 = Throwing n x) \<and> status q' = Error)"
    by (rule miss) (simp add: q)
  then obtain q' where "queries (snd (fetchQuery 150 ''a'' (Asynchronous 1) (Some 1000) c10_client)) ''a'' = Some q'"
    "status q' = Loading"
    by auto
  with q have "queries (snd (fetchQuery 150 ''a'' (Asynchronous 1) (Some 1000) c10_client)) ''a'' \<noteq>
      queries c10_client ''a''" by auto
  then have "queries (snd (fetchQuery 150 ''a'' (Asynchronous 1) (Some 1000) c10_client)) \<noteq> queries c10_client"
    by metis
  with q hit show ?thesis by simp
qed

subsection \<open>C3: one fetch in flight\<close>

text \<open>
  C3 does not hold of the code. After \<open>fetchQuery("a", fn)\<close> the state of \<open>"a"\<close> is
  \<open>loading\<close> and one call of \<open>fn\<close> is pending; \<open>invalidateQuery("a")\<close> then deletes the
  state, so the \<open>fetchQuery\<close> it makes finds no entry and calls \<open>fn\<close> again: two calls
  for one key are pending.
\<close>

theorem invalidate_while_loading_starts_second_fetch:
  "queries c3_client ''a'' =
     Some \<lparr>data = Undefined, status = Loading, error = None, lastFetchedAt = 0, staleTime = 0\<rparr> \<and>
   inflight c3_client =
     [\<lparr>pf_promise = 0, pf_key = ''a'', pf_staleTime = 0, pf_existingQuery = None\<rparr>] \<and>
   trace c3_client =
     [Stored ''a'' \<lparr>data = Undefined, status = Loading, error = None, lastFetchedAt = 0, staleTime = 0\<rparr>,
      Notified ''a'', Fetched ''a'' (Asynchronous 0)] \<and>
   trace (invalidateQuery 1 ''a'' c3_client) = trace c3_client @
     [Stored ''a'' \<lparr>data = Undefined, status = Loading, error = None, lastFetchedAt = 0, staleTime = 0\<rparr>,
      Notified ''a'', Fetched ''a'' (Asynchronous 0)] \<and>
   inflight (invalidateQuery 1 ''a'' c3_client) =
     [\<lparr>pf_promise = 0, pf_key = ''a'', pf_staleTime = 0, pf_existingQuery = None\<rparr>,
      \<lparr>pf_promise = 1, pf_key = ''a'', pf_staleTime = 0, pf_existingQuery = None\<rparr>]"
  by (simp add: c3_client_def eval_defs)

subsection \<open>C2: the fresh cache hit\<close>

text \<open>
  C2, as amended. In a reachable client where \<open>k\<close> has a \<open>success\<close> state \<open>q\<close>, a call
  \<open>fetchQuery(k, fn, opts)\<close> at a time \<open>now\<close> with \<open>now - q.lastFetchedAt < q.staleTime\<close>
  (the \<open>staleTime\<close> stored in the state, not the one of the call) resolves with
  \<open>q.data\<close>, calls no fetch function, writes no state and notifies nobody; it only
  remembers \<open>fn\<close> for \<open>k\<close>.
\<close>

theorem fresh_hit_is_silent:
  assumes "queries (run ops new_client) k = Some q" "status q = Success"
    "now - lastFetchedAt q < staleTime q"
  shows "promises (snd (fetchQuery now k fn opt (run ops new_client)))
           (fst (fetchQuery now k fn opt (run ops new_client))) = Some (Resolved (data q)) \<and>
         (\<forall>p'. p' \<noteq> fst (fetchQuery now k fn opt (run ops new_client)) \<longrightarrow>
            promises (snd (fetchQuery now k fn opt (run ops new_client))) p' =
            promises (run ops new_client) p') \<and>
         queries (snd (fetchQuery now k fn opt (run ops new_client))) = queries (run ops new_client) \<and>
         listeners (snd (fetchQuery now k fn opt (run ops new_client))) = listeners (run ops new_client) \<and>
         inflight (snd (fetchQuery now k fn opt (run ops new_client))) = inflight (run ops new_client) \<and>
         trace (snd (fetchQuery now k fn opt (run ops new_client))) = trace (run ops new_client) \<and>
         queryFns (snd (fetchQuery now k fn opt (run ops new_client))) =
           (queryFns (run ops new_client))(k \<mapsto> fn)"
proof -
  let ?c = "run ops new_client :: 'a QueryClient"
  have "promises ?c (next_promise ?c) = None"
    using reachable_ids_below [of ops] unfolding ids_below_def by blast
  with assms show ?thesis
    by (simp add: fetchQuery_hit [OF assms] promises_settle)
qed

text \<open>
  C2 as stated fails: the state was written by a call with \<open>staleTime\<close> 0 at time 100;
  a call at time 105 with \<open>staleTime\<close> 10000 has \<open>105 - 100 < 10000\<close>, yet it writes a
  \<open>loading\<close> state and calls its fetch function.
\<close>

theorem stale_time_of_call_counterexample:
  "queries c2_client ''a'' =
     Some \<lparr>data = Value 7, status = Success, error = None, lastFetchedAt = 100, staleTime = 0\<rparr> \<and>
   (105 :: int) - 100 < 10000 \<and>
   trace (snd (fetchQuery 105 ''a'' (Asynchronous 1) (Some 10000) c2_client)) = trace c2_client @
     [Stored ''a'' \<lparr>data = Value 7, status = Loading, error = None, lastFetchedAt = 100,
                    staleTime = 10000\<rparr>,
      Notified ''a'', Fetched ''a'' (Asynchronous 1)] \<and>
   promises (snd (fetchQuery 105 ''a'' (Asynchronous 1) (Some 10000) c2_client)) 1 = None"
  by (simp add: c2_client_def eval_defs)


theorem fresh_hit_is_silent_witness:
  "promises (snd (fetchQuery 120 ''a'' (Asynchronous 1) (Some 0) c10_client)) 1 = Some (Resolved (Value 7)) \<and>
   trace (snd (fetchQuery 120 ''a'' (Asynchronous 1) (Some 0) c10_client)) = trace c10_client \<and>
   queryFns (snd (fetchQuery 120 ''a'' (Asynchronous 1) (Some 0) c10_client)) ''a'' = Some (Asynchronous 1)"
proof -
  have q: "queries (run [FetchQuery 0 ''a'' (Asynchronous 0) (Some 50), Complete 100 0 (Resolves (Value 7))] new_client) ''a'' =
     Some \<lparr>data = Value (7::nat), status = Success, error = None, lastFetchedAt = 100, staleTime = 50\<rparr>"
    by (simp add: eval_defs)
  have n: "next_promise c10_client = 1" by (simp add: c10_client_def eval_defs)
  note hit = fresh_hit_is_silent [OF q, of 120 "Asynchronous 1" "Some 0", folded c10_client_def]
  from hit n show ?thesis by simp
qed

subsection \<open>C5: a fetch that succeeds\<close>

text \<open>
  C5, as amended. Let a call \<open>fetchQuery(k, fn, {staleTime: s})\<close> be made on a reachable
  client \<open>c\<close>, either directly or by \<open>invalidateQuery(k)\<close> (which deletes the entry of
  \<open>k\<close> and calls \<open>fetchQuery\<close> with the remembered function and the previous
  \<open>staleTime\<close>), and let it be suspended at its \<open>await\<close> in \<open>c2\<close>, whatever happened
  since. When its fetch resolves with \<open>v\<close> at time \<open>now\<close>, the first state written is a
  \<open>success\<close> state for \<open>k\<close> with \<open>data = v\<close>, \<open>error = null\<close>, \<open>lastFetchedAt = now\<close> and
  \<open>staleTime = s\<close>. When every listener registered for \<open>k\<close> returns without throwing and
  without calling back into the client, this is the state of \<open>k\<close> afterwards, the trace
  grows by exactly one \<open>queries.set\<close>, one \<open>notify(k)\<close> and one call of each listener
  of \<open>k\<close>, and the promise of the call resolves with \<open>v\<close>.
\<close>

theorem fetch_success_stores_and_returns:
  assumes "c = run ops new_client"
    and "c1 = snd (fetchQuery now0 k fn opt c) \<or>
         (\<exists>q0. queries c k = Some q0 \<and> opt = Some (staleTime q0)) \<and> queryFns c k = Some fn \<and>
         c1 = invalidateQuery now0 k c"
    and "p = next_promise c"
    and "c2 = run ops2 c1"
    and "p \<in> pf_promise ` set (inflight c2)"
  shows "hd (written_since c2 (complete now p (Resolves v) c2)) =
           (k, \<lparr>data = v, status = Success, error = None, lastFetchedAt = now,
                staleTime = (case opt of None \<Rightarrow> 0 | Some s \<Rightarrow> s)\<rparr>) \<and>
         written_since c2 (complete now p (Resolves v) c2) \<noteq> [] \<and>
         (quiet k c2 \<longrightarrow>
            queries (complete now p (Resolves v) c2) =
              (queries c2)(k \<mapsto> \<lparr>data = v, status = Success, error = None, lastFetchedAt = now,
                                  staleTime = (case opt of None \<Rightarrow> 0 | Some s \<Rightarrow> s)\<rparr>) \<and>
            trace (complete now p (Resolves v) c2) =
              trace c2 @
              [Stored k \<lparr>data = v, status = Success, error = None, lastFetchedAt = now,
                         staleTime = (case opt of None \<Rightarrow> 0 | Some s \<Rightarrow> s)\<rparr>,
               Notified k] @ map (Called k) (listeners_of k c2) \<and>
            promises (complete now p (Resolves v) c2) p = Some (Resolved v))"
proof -
  from assms(1) have inv: "ids_below c" by (simp add: reachable_ids_below)
  from assms(2) show ?thesis
  proof
    assume "c1 = snd (fetchQuery now0 k fn opt c)"
    with assms(4) have c2: "c2 = run ops2 (snd (fetchQuery now0 k fn opt c))" by simp
    from suspended_success [OF inv c2, of now v] assms(3,5) show ?thesis
      by (simp add: success_state_def)
  next
    let ?c0 = "c\<lparr>queries := (queries c)(k := None)\<rparr>"
    assume "(\<exists>q0. queries c k = Some q0 \<and> opt = Some (staleTime q0)) \<and> queryFns c k = Some fn \<and>
         c1 = invalidateQuery now0 k c"
    then have "c1 = snd (fetchQuery now0 k fn opt ?c0)" by (auto simp: invalidateQuery_def)
    with assms(4) have c2: "c2 = run ops2 (snd (fetchQuery now0 k fn opt ?c0))" by simp
    from inv have inv0: "ids_below ?c0" by (rule ids_below_clear)
    from suspended_success [OF inv0 c2, of now v] assms(3,5) show ?thesis
      by (simp add: success_state_def)
  qed
qed

text \<open>
  C5 as stated fails when a listener of the key throws: the exception leaves the
  \<open>setQueryState\<close> of the success branch inside the \<open>try\<close>, the \<open>catch\<close> block stores an
  \<open>error\<close> state over the \<open>success\<close> state, and the call rejects although the fetch
  resolved with 7.
\<close>

theorem listener_throw_turns_success_into_error_counterexample:
  "queries c5_client ''a'' =
     Some \<lparr>data = Undefined, status = Error, error = Some (NewError ''oops''),
           lastFetchedAt = 0, staleTime = 0\<rparr> \<and>
   promises c5_client 0 = Some (Rejected (NonError ''oops'')) \<and>
   stored (trace c5_client) =
     [(''a'', \<lparr>data = Undefined, status = Loading, error = None, lastFetchedAt = 0, staleTime = 0\<rparr>),
      (''a'', \<lparr>data = Value 7, status = Success, error = None, lastFetchedAt = 1, staleTime = 0\<rparr>),
      (''a'', \<lparr>data = Undefined, status = Error, error = Some (NewError ''oops''),
               lastFetchedAt = 0, staleTime = 0\<rparr>)]"
  by (simp add: c5_client_def eval_defs)

text \<open>
  The refetch that \<open>invalidateQuery\<close> starts on a key holding the value 7 with
  \<open>staleTime = 50\<close>, with an observer subscribed since, resolves with 8 at time 300.
\<close>

theorem fetch_success_stores_and_returns_witness:
  "promises (complete 300 1 (Resolves (Value 8))
      (run [Subscribe ''a'' (Observer 0)] (invalidateQuery 200 ''a'' c10_client))) 1 =
     Some (Resolved (Value 8)) \<and>
   queries (complete 300 1 (Resolves (Value 8))
      (run [Subscribe ''a'' (Observer 0)] (invalidateQuery 200 ''a'' c10_client))) ''a'' =
     Some \<lparr>data = Value 8, status = Success, error = None, lastFetchedAt = 300, staleTime = 50\<rparr>"
proof -
  let ?c1 = "invalidateQuery 200 ''a'' c10_client"
  let ?c2 = "run [Subscribe ''a'' (Observer 0)] ?c1"
  have site: "?c1 = snd (fetchQuery 200 ''a'' (Asynchronous 0) (Some 50) c10_client) \<or>
         (\<exists>q0. queries c10_client ''a'' = Some q0 \<and> Some 50 = Some (staleTime q0)) \<and>
         queryFns c10_client ''a'' = Some (Asynchronous 0) \<and>
         ?c1 = invalidateQuery 200 ''a'' c10_client"
    by (simp add: c10_client_def eval_defs)
  have p: "1 = next_promise c10_client" by (simp add: c10_client_def eval_defs)
  have mem: "1 \<in> pf_promise ` set (inflight ?c2)" by (simp add: c10_client_def eval_defs)
  have q: "quiet ''a'' ?c2" by (simp add: quiet_def c10_client_def eval_defs)
  from fetch_success_stores_and_returns [OF c10_client_def site p refl mem, of 300 "Value 8"] q
  show ?thesis by simp
qed

subsection \<open>C4: a fetch that fails\<close>




subsection \<open>C1: joining a fetch in flight\<close>





end
